theory Spec2Isabelle
  imports Complex_Main "HOL-Library.Word"
begin

section \<open>Numbers\<close>

text \<open>
  A JavaScript \<open>number\<close> is a finite value, \<open>NaN\<close> or one of the two infinities. A finite
  value is modelled as an exact real: the rounding errors and the overflow of IEEE doubles
  and the sign of zero are outside the model.
\<close>

datatype number = Num real | NaN | PosInf | NegInf

text \<open>
  The comparisons \<open><\<close>, \<open>>\<close>, \<open><=\<close>, \<open>>=\<close> and \<open>===\<close> of two numbers. Each is false as
  soon as one side is \<open>NaN\<close>; \<open>a !== b\<close> is the negation of \<open>a === b\<close>.
\<close>

fun js_lt :: "number \<Rightarrow> number \<Rightarrow> bool" where
  "js_lt (Num a) (Num b) = (a < b)"
| "js_lt (Num a) PosInf = True"
| "js_lt NegInf (Num b) = True"
| "js_lt NegInf PosInf = True"
| "js_lt _ _ = False"

definition js_gt :: "number \<Rightarrow> number \<Rightarrow> bool" where
  "js_gt a b = js_lt b a"

definition js_eq :: "number \<Rightarrow> number \<Rightarrow> bool" where
  "js_eq a b \<longleftrightarrow> a \<noteq> NaN \<and> a = b"

definition js_le :: "number \<Rightarrow> number \<Rightarrow> bool" where
  "js_le a b \<longleftrightarrow> js_lt a b \<or> js_eq a b"

definition js_ge :: "number \<Rightarrow> number \<Rightarrow> bool" where
  "js_ge a b = js_le b a"

text \<open>The operators \<open>-\<close>, \<open>*\<close> and \<open>/\<close>.\<close>

fun js_sub :: "number \<Rightarrow> number \<Rightarrow> number" where
  "js_sub (Num a) (Num b) = Num (a - b)"
| "js_sub NaN _ = NaN"
| "js_sub _ NaN = NaN"
| "js_sub PosInf PosInf = NaN"
| "js_sub NegInf NegInf = NaN"
| "js_sub PosInf _ = PosInf"
| "js_sub NegInf _ = NegInf"
| "js_sub _ PosInf = NegInf"
| "js_sub _ NegInf = PosInf"

fun js_mul :: "number \<Rightarrow> number \<Rightarrow> number" where
  "js_mul (Num a) (Num b) = Num (a * b)"
| "js_mul NaN _ = NaN"
| "js_mul _ NaN = NaN"
| "js_mul (Num a) PosInf = (if a = 0 then NaN else if 0 < a then PosInf else NegInf)"
| "js_mul (Num a) NegInf = (if a = 0 then NaN else if 0 < a then NegInf else PosInf)"
| "js_mul PosInf (Num b) = (if b = 0 then NaN else if 0 < b then PosInf else NegInf)"
| "js_mul NegInf (Num b) = (if b = 0 then NaN else if 0 < b then NegInf else PosInf)"
| "js_mul PosInf PosInf = PosInf"
| "js_mul PosInf NegInf = NegInf"
| "js_mul NegInf PosInf = NegInf"
| "js_mul NegInf NegInf = PosInf"

fun js_div :: "number \<Rightarrow> number \<Rightarrow> number" where
  "js_div (Num a) (Num b) =
     (if b \<noteq> 0 then Num (a / b)
      else if a = 0 then NaN else if 0 < a then PosInf else NegInf)"
| "js_div NaN _ = NaN"
| "js_div _ NaN = NaN"
| "js_div (Num a) _ = Num 0"
| "js_div PosInf (Num b) = (if 0 \<le> b then PosInf else NegInf)"
| "js_div NegInf (Num b) = (if 0 \<le> b then NegInf else PosInf)"
| "js_div _ _ = NaN"

text \<open>\<open>Math.round\<close>: the nearest integer, a tie going up; \<open>NaN\<close> and the infinities stay.\<close>

fun Math_round :: "number \<Rightarrow> number" where
  "Math_round (Num x) = Num (of_int \<lfloor>x + 1 / 2\<rfloor>)"
| "Math_round x = x"

text \<open>The integer part of a finite value (rounding towards zero).\<close>

definition js_trunc :: "real \<Rightarrow> int" where
  "js_trunc x = (if 0 \<le> x then \<lfloor>x\<rfloor> else \<lceil>x\<rceil>)"

text \<open>
  The conversions of a number to an unsigned integer of 32 and of 8 bits: the integer part
  modulo \<open>2^32\<close> and \<open>2^8\<close>, and 0 for \<open>NaN\<close> and the infinities. \<open>value >>> n\<close>
  shifts the 32-bit conversion.
\<close>

definition toUint32 :: "number \<Rightarrow> int" where
  "toUint32 v = (case v of Num x \<Rightarrow> js_trunc x mod 2 ^ 32 | _ \<Rightarrow> 0)"

definition js_ushr :: "number \<Rightarrow> nat \<Rightarrow> number" where
  "js_ushr v n = Num (of_int (toUint32 v div 2 ^ n))"

section \<open>Protocol constants (command-ids.ts)\<close>

text \<open>A \<open>Buffer\<close> is a list of bytes.\<close>

type_synonym byte = "8 word"

abbreviation (input) SOFTWARE_VERSION :: byte where "SOFTWARE_VERSION \<equiv> 0x02"
abbreviation (input) GET_ANGLES :: byte where "GET_ANGLES \<equiv> 0x20"
abbreviation (input) SEND_ANGLES :: byte where "SEND_ANGLES \<equiv> 0x22"
abbreviation (input) SEND_ANGLE :: byte where "SEND_ANGLE \<equiv> 0x21"
abbreviation (input) GET_COORDS :: byte where "GET_COORDS \<equiv> 0x23"
abbreviation (input) SEND_COORD :: byte where "SEND_COORD \<equiv> 0x24"
abbreviation (input) SEND_COORDS :: byte where "SEND_COORDS \<equiv> 0x25"
abbreviation (input) PAUSE :: byte where "PAUSE \<equiv> 0x26"
abbreviation (input) RESUME :: byte where "RESUME \<equiv> 0x28"
abbreviation (input) STOP :: byte where "STOP \<equiv> 0x29"
abbreviation (input) IS_IN_POSITION :: byte where "IS_IN_POSITION \<equiv> 0x2A"
abbreviation (input) IS_MOVING :: byte where "IS_MOVING \<equiv> 0x2B"
abbreviation (input) POWER_ON :: byte where "POWER_ON \<equiv> 0x10"
abbreviation (input) POWER_OFF :: byte where "POWER_OFF \<equiv> 0x11"
abbreviation (input) IS_POWER_ON :: byte where "IS_POWER_ON \<equiv> 0x12"
abbreviation (input) RELEASE_ALL_SERVOS :: byte where "RELEASE_ALL_SERVOS \<equiv> 0x13"
abbreviation (input) IS_SERVO_ENABLE :: byte where "IS_SERVO_ENABLE \<equiv> 0x50"
abbreviation (input) RELEASE_SERVO :: byte where "RELEASE_SERVO \<equiv> 0x56"
abbreviation (input) FOCUS_SERVO :: byte where "FOCUS_SERVO \<equiv> 0x57"
abbreviation (input) GET_SPEED :: byte where "GET_SPEED \<equiv> 0x40"
abbreviation (input) SET_SPEED :: byte where "SET_SPEED \<equiv> 0x41"
abbreviation (input) GET_GRIPPER_VALUE :: byte where "GET_GRIPPER_VALUE \<equiv> 0x65"
abbreviation (input) SET_GRIPPER_STATE :: byte where "SET_GRIPPER_STATE \<equiv> 0x66"
abbreviation (input) SET_GRIPPER_VALUE :: byte where "SET_GRIPPER_VALUE \<equiv> 0x67"
abbreviation (input) SET_GRIPPER_INI :: byte where "SET_GRIPPER_INI \<equiv> 0x68"
abbreviation (input) IS_GRIPPER_MOVING :: byte where "IS_GRIPPER_MOVING \<equiv> 0x69"
abbreviation (input) JOG_ANGLE :: byte where "JOG_ANGLE \<equiv> 0x30"
abbreviation (input) JOG_COORD :: byte where "JOG_COORD \<equiv> 0x32"
abbreviation (input) SET_ENCODER :: byte where "SET_ENCODER \<equiv> 0x3A"
abbreviation (input) GET_ENCODER :: byte where "GET_ENCODER \<equiv> 0x3B"
abbreviation (input) SET_ENCODERS :: byte where "SET_ENCODERS \<equiv> 0x3C"
abbreviation (input) GET_ENCODERS :: byte where "GET_ENCODERS \<equiv> 0x3D"

text \<open>The \<open>PROTOCOL\<close> object.\<close>

definition HEADER :: byte where "HEADER = 0xFE"
definition FOOTER :: byte where "FOOTER = 0xFA"
definition HEADER_SIZE :: nat where "HEADER_SIZE = 2"
definition FOOTER_SIZE :: nat where "FOOTER_SIZE = 1"
definition LENGTH_SIZE :: nat where "LENGTH_SIZE = 1"
definition COMMAND_ID_SIZE :: nat where "COMMAND_ID_SIZE = 1"
definition MIN_PACKET_SIZE :: nat where "MIN_PACKET_SIZE = 5"

section \<open>Errors and decoded values\<close>

text \<open>
  The source throws plain \<open>Error\<close> objects that differ in their message only; the buffer
  accessors of the runtime throw a \<open>RangeError\<close>. The constructors keep the place each
  error is thrown from: the argument checks of the public operations
  (\<open>ValidationError\<close>), the state checks of the recorder (\<open>StateError\<close>), the two
  checks at the head of \<open>_sendCommand\<close>, the length checks of \<open>_encodeData\<close>
  (\<open>EncodeError\<close>), the timeout callback of \<open>_sendCommand\<close> and the buffer accessors.
\<close>

datatype error =
    ValidationError string
  | StateError string
  | NotConnected
  | PortNotInitialized
  | EncodeError string
  | CommandTimeout byte
  | RangeError

text \<open>What \<open>_decodeData\<close> returns: a number, an array of numbers, a boolean or the raw buffer.\<close>

datatype response =
    RNumber number
  | RVector "number list"
  | RBoolean bool
  | RBuffer "byte list"

section \<open>Buffer accessors of the runtime\<close>

text \<open>\<open>Buffer.alloc n\<close>: \<open>n\<close> zero bytes.\<close>

definition Buffer_alloc :: "nat \<Rightarrow> byte list" where
  "Buffer_alloc n = replicate n 0"

text \<open>
  Storing a number into a byte array keeps its integer part modulo 256; \<open>NaN\<close> and the
  infinities are stored as 0.
\<close>

definition toUint8 :: "number \<Rightarrow> byte" where
  "toUint8 v = (case v of Num x \<Rightarrow> word_of_int (js_trunc x) | _ \<Rightarrow> 0)"

text \<open>\<open>Buffer.from(array)\<close>: one byte per element.\<close>

definition Buffer_from :: "number list \<Rightarrow> byte list" where
  "Buffer_from xs = map toUint8 xs"

text \<open>
  \<open>buf.readInt16BE(offset)\<close>: throws a \<open>RangeError\<close> unless both bytes are inside the
  buffer; otherwise the two bytes, the first the more significant, in two's complement.
\<close>

definition readInt16BE :: "byte list \<Rightarrow> nat \<Rightarrow> error + int" where
  "readInt16BE buf offset =
     (if offset + 1 < length buf then
        (let val = int (unat (buf ! offset)) * 2 ^ 8 + int (unat (buf ! (offset + 1)))
         in Inr (if 2 ^ 15 \<le> val then val - 2 ^ 16 else val))
      else Inl RangeError)"

text \<open>
  \<open>buf.writeInt16BE(value, offset)\<close>: throws a \<open>RangeError\<close> when
  \<open>value > 32767 || value < -32768\<close> or when the two bytes do not fit; otherwise it stores
  \<open>value >>> 8\<close> and \<open>value\<close>. \<open>NaN\<close> passes the test and is stored as two zero bytes.
\<close>

definition writeInt16BE :: "byte list \<Rightarrow> number \<Rightarrow> nat \<Rightarrow> error + byte list" where
  "writeInt16BE buf v offset =
     (if js_gt v (Num 32767) \<or> js_lt v (Num (- 32768)) then Inl RangeError
      else if length buf \<le> offset + 1 then Inl RangeError
      else Inr (buf[offset := toUint8 (js_ushr v 8), offset + 1 := toUint8 v]))"

text \<open>
  \<open>buf.writeUInt8(value, offset)\<close>: throws a \<open>RangeError\<close> when
  \<open>value > 255 || value < 0\<close> or when the byte does not fit. \<open>NaN\<close> passes the test and is
  stored as a zero byte.
\<close>

definition writeUInt8 :: "byte list \<Rightarrow> number \<Rightarrow> nat \<Rightarrow> error + byte list" where
  "writeUInt8 buf v offset =
     (if js_gt v (Num 255) \<or> js_lt v (Num 0) then Inl RangeError
      else if length buf \<le> offset then Inl RangeError
      else Inr (buf[offset := toUint8 v]))"

text \<open>\<open>buf.slice(start, end)\<close> for indices inside the buffer; empty when \<open>end \<le> start\<close>.\<close>

definition slice :: "'a list \<Rightarrow> nat \<Rightarrow> nat \<Rightarrow> 'a list" where
  "slice buf start end = take (end - start) (drop start buf)"

text \<open>\<open>source.copy(target, offset)\<close>: overwrites the target from \<open>offset\<close> on, as far as it has room.\<close>

definition copy :: "byte list \<Rightarrow> byte list \<Rightarrow> nat \<Rightarrow> byte list" where
  "copy source target offset =
     take offset target @ take (length target - offset) source
       @ drop (offset + length source) target"

section \<open>The codec (mycobot-controller.ts)\<close>

text \<open>
  \<open>_decodeData\<close>, the loop of the vector responses:
  \<^verbatim>\<open>for (let i = 0; i < data.length; i += 2) decoded.push(data.readInt16BE(i) / 100.0)\<close>
\<close>

function decodeValues :: "byte list \<Rightarrow> nat \<Rightarrow> number list \<Rightarrow> error + number list" where
  "decodeValues data i decoded =
     (if i < length data then
        (case readInt16BE data i of
           Inl e \<Rightarrow> Inl e
         | Inr v \<Rightarrow> decodeValues data (i + 2) (decoded @ [Num (real_of_int v / 100)]))
      else Inr decoded)"
  by pat_completeness auto
termination
  by (relation "measure (\<lambda>(data, i, decoded). length data - i)") auto

declare decodeValues.simps [simp del]

definition decodeData :: "byte \<Rightarrow> byte list \<Rightarrow> error + response" where
  "decodeData commandId data =
     (if commandId = SOFTWARE_VERSION then
        Inr (RNumber (Num (if 0 < length data then real (unat (data ! 0)) else 0)))
      else if commandId = GET_ANGLES \<or> commandId = GET_COORDS \<or> commandId = GET_ENCODERS then
        (case decodeValues data 0 [] of
           Inl e \<Rightarrow> Inl e
         | Inr decoded \<Rightarrow> Inr (RVector decoded))
      else if commandId = IS_POWER_ON \<or> commandId = IS_GRIPPER_MOVING \<or> commandId = IS_MOVING
              \<or> commandId = IS_IN_POSITION \<or> commandId = IS_SERVO_ENABLE then
        Inr (RBoolean (0 < length data \<and> data ! 0 = 1))
      else if commandId = GET_ENCODER then
        (case readInt16BE data 0 of
           Inl e \<Rightarrow> Inl e
         | Inr v \<Rightarrow> Inr (RNumber (Num (real_of_int v / 100))))
      else if commandId = GET_SPEED \<or> commandId = GET_GRIPPER_VALUE then
        Inr (RNumber (Num (if 0 < length data then real (unat (data ! 0)) else 0)))
      else Inr (RBuffer data))"

text \<open>
  \<open>_encodeData\<close>, the loop of the six values of \<open>SEND_ANGLES\<close> and \<open>SEND_COORDS\<close>:
  \<^verbatim>\<open>for (let i = 0; i < 6; i += 1) buffer.writeInt16BE(Math.round(data[i] * 100), i * 2)\<close>
  It runs after the length check, so \<open>data[i]\<close> is a number (\<open>NaN\<close> is one) and the
  \<open>typeof\<close> checks of the source never throw.
\<close>

function writeValues :: "number list \<Rightarrow> nat \<Rightarrow> byte list \<Rightarrow> error + byte list" where
  "writeValues data i buffer =
     (if i < 6 then
        (case writeInt16BE buffer (Math_round (js_mul (data ! i) (Num 100))) (i * 2) of
           Inl e \<Rightarrow> Inl e
         | Inr buffer' \<Rightarrow> writeValues data (i + 1) buffer')
      else Inr buffer)"
  by pat_completeness auto
termination
  by (relation "measure (\<lambda>(data, i, buffer). 6 - i)") auto

declare writeValues.simps [simp del]

text \<open>Sequencing of calls that may throw.\<close>

definition bind :: "error + 'a \<Rightarrow> ('a \<Rightarrow> error + 'b) \<Rightarrow> error + 'b" where
  "bind r f = (case r of Inl e \<Rightarrow> Inl e | Inr x \<Rightarrow> f x)"

definition encodeData :: "byte \<Rightarrow> number list option \<Rightarrow> error + byte list" where
  "encodeData commandId data =
     (case data of
        None \<Rightarrow> Inr (Buffer_alloc 0)
      | Some d \<Rightarrow>
          if length d = 0 then Inr (Buffer_alloc 0)
          else if commandId = SEND_ANGLES then
            (if length d < 7 then Inl (EncodeError ''SEND_ANGLES requires 7 data values'')
             else bind (writeValues d 0 (Buffer_alloc 13)) (\<lambda>buffer.
                  writeUInt8 buffer (d ! 6) 12))
          else if commandId = SEND_ANGLE then
            (if length d < 3 then Inl (EncodeError ''SEND_ANGLE requires 3 data values'')
             else bind (writeUInt8 (Buffer_alloc 4) (d ! 0) 0) (\<lambda>buffer.
                  bind (writeInt16BE buffer (Math_round (js_mul (d ! 1) (Num 100))) 1) (\<lambda>buffer.
                  writeUInt8 buffer (d ! 2) 3)))
          else if commandId = SEND_COORDS then
            (if length d < 8 then Inl (EncodeError ''SEND_COORDS requires 8 data values'')
             else bind (writeValues d 0 (Buffer_alloc 14)) (\<lambda>buffer.
                  bind (writeUInt8 buffer (d ! 6) 12) (\<lambda>buffer.
                  writeUInt8 buffer (d ! 7) 13)))
          else if commandId = SEND_COORD then
            (if length d < 3 then Inl (EncodeError ''SEND_COORD requires 3 data values'')
             else bind (writeUInt8 (Buffer_alloc 4) (d ! 0) 0) (\<lambda>buffer.
                  bind (writeInt16BE buffer (Math_round (js_mul (d ! 1) (Num 100))) 1) (\<lambda>buffer.
                  writeUInt8 buffer (d ! 2) 3)))
          else if commandId = SET_GRIPPER_STATE \<or> commandId = SET_GRIPPER_VALUE then
            (if length d < 2 then Inl (EncodeError ''Gripper commands require 2 data values'')
             else bind (writeUInt8 (Buffer_alloc 2) (d ! 0) 0) (\<lambda>buffer.
                  writeUInt8 buffer (d ! 1) 1))
          else Inr (Buffer_from d))"

section \<open>The dispatcher (mycobot-controller.ts)\<close>

text \<open>
  An entry of \<open>responseQueue\<close>. The source keeps the command id and the closures
  \<open>resolve\<close> and \<open>reject\<close> of the promise handed to the caller; here the closures are
  the number of the call whose promise they settle (the same number names the timeout
  timer that \<open>resolve\<close> and \<open>reject\<close> clear).
\<close>

record queue_item =
  command :: byte
  call :: nat

text \<open>How the promise of a call ended.\<close>

datatype outcome = Resolved response | Rejected error

text \<open>
  A pending \<open>setTimeout\<close> of \<open>_sendCommand\<close>: the call its callback rejects, the command id
  the callback searches the queue for, and the instant it is due.
\<close>

record timer =
  owner :: nat
  timerCommand :: byte
  expiry :: nat

text \<open>
  The controller, and the part of the event loop its callbacks live in. \<open>port\<close> is
  \<open>None\<close> for a null port object and otherwise holds the buffers passed to
  \<open>port.write\<close>, in order. \<open>clock\<close> is the time in milliseconds, \<open>timers\<close> the pending
  timeouts in order of creation, \<open>settled\<close> the promises completed so far in order of
  completion, \<open>calls\<close> the number of promises created by \<open>_sendCommand\<close>.
\<close>

record controller =
  isConnected :: bool
  port :: "byte list list option"
  buffer :: "byte list"
  responseQueue :: "queue_item list"
  clock :: nat
  timers :: "timer list"
  settled :: "(nat \<times> outcome) list"
  calls :: nat

text \<open>The constructor: the port object exists and is closed.\<close>

definition newController :: controller where
  "newController =
     \<lparr>isConnected = False, port = Some [], buffer = [], responseQueue = [],
      clock = 0, timers = [], settled = [], calls = 0\<rparr>"

definition getCommandTimeout :: "byte \<Rightarrow> nat" where
  "getCommandTimeout commandId =
     (if commandId = POWER_ON then 8000
      else if commandId = POWER_OFF \<or> commandId = RELEASE_ALL_SERVOS then 3000
      else if commandId = SEND_ANGLE \<or> commandId = SEND_ANGLES
              \<or> commandId = SEND_COORD \<or> commandId = SEND_COORDS then 300
      else 500)"

text \<open>Array functions: \<open>findIndex\<close> and \<open>indexOf\<close> (\<open>None\<close> for \<open>-1\<close>), \<open>splice(index, 1)\<close>.\<close>

fun findIndex :: "('a \<Rightarrow> bool) \<Rightarrow> 'a list \<Rightarrow> nat option" where
  "findIndex P [] = None"
| "findIndex P (x # xs) =
     (if P x then Some 0 else (case findIndex P xs of None \<Rightarrow> None | Some i \<Rightarrow> Some (Suc i)))"

definition indexOf :: "'a \<Rightarrow> 'a list \<Rightarrow> nat option" where
  "indexOf x xs = findIndex (\<lambda>y. y = x) xs"

definition splice1 :: "nat \<Rightarrow> 'a list \<Rightarrow> 'a list" where
  "splice1 index xs = take index xs @ drop (index + 1) xs"

text \<open>A promise is settled once; settling it again has no effect.\<close>

definition settle :: "nat \<Rightarrow> outcome \<Rightarrow> controller \<Rightarrow> controller" where
  "settle k result c =
     (if k \<in> fst ` set (settled c) then c else c\<lparr>settled := settled c @ [(k, result)]\<rparr>)"

definition clearTimeout :: "nat \<Rightarrow> controller \<Rightarrow> controller" where
  "clearTimeout k c = c\<lparr>timers := filter (\<lambda>t. owner t \<noteq> k) (timers c)\<rparr>"

text \<open>
  \<open>_handleResponse\<close>. The entry is taken out of the queue before the payload is decoded;
  when \<open>_decodeData\<close> throws, the exception leaves the function (first component) and the
  entry's \<open>resolve\<close> is not called. \<open>indexOf\<close> finds the entry that \<open>find\<close> returned;
  \<open>splice(-1, 1)\<close> would remove the last entry.
\<close>

definition handleResponse :: "byte \<Rightarrow> byte list \<Rightarrow> controller \<Rightarrow> error option \<times> controller" where
  "handleResponse commandId data c =
     (if 0 < length (responseQueue c) then
        (case find (\<lambda>item. command item = commandId) (responseQueue c) of
           None \<Rightarrow> (None, c)
         | Some pendingResponse \<Rightarrow>
             (let c1 = c\<lparr>responseQueue :=
                        (case indexOf pendingResponse (responseQueue c) of
                           Some index \<Rightarrow> splice1 index (responseQueue c)
                         | None \<Rightarrow> butlast (responseQueue c))\<rparr>
              in (case decodeData commandId data of
                    Inl e \<Rightarrow> (Some e, c1)
                  | Inr decodedData \<Rightarrow>
                      (None, settle (call pendingResponse) (Resolved decodedData)
                               (clearTimeout (call pendingResponse) c1)))))
      else (None, c))"

text \<open>The scan of \<open>_parseResponses\<close> for two consecutive header bytes, from index \<open>i\<close> on.\<close>

fun findStart :: "nat \<Rightarrow> byte list \<Rightarrow> nat option" where
  "findStart i (x # y # rest) =
     (if x = HEADER \<and> y = HEADER then Some i else findStart (i + 1) (y # rest))"
| "findStart i rest = None"

text \<open>
  \<open>_parseResponses\<close>, one iteration of the \<open>while\<close> loop per call. The first component
  is the exception that left the loop, if any: \<open>_handleResponse\<close> throws before the
  packet is removed from the buffer.
\<close>

function parseResponses :: "controller \<Rightarrow> error option \<times> controller" where
  "parseResponses c =
     (if MIN_PACKET_SIZE \<le> length (buffer c) then
        (case findStart 0 (buffer c) of
           None \<Rightarrow> (None, c\<lparr>buffer := Buffer_alloc 0\<rparr>)
         | Some startIndex \<Rightarrow>
             (let b = (if 0 < startIndex then drop startIndex (buffer c) else buffer c)
              in if length b < 3 then (None, c\<lparr>buffer := b\<rparr>)
                 else
                   (let packetLength = HEADER_SIZE + LENGTH_SIZE + unat (b ! 2)
                    in if length b < packetLength then (None, c\<lparr>buffer := b\<rparr>)
                       else
                         (let packet = slice b 0 packetLength
                          in if packet ! (packetLength - 1) = FOOTER then
                               (case handleResponse (packet ! 3) (slice packet 4 (packetLength - 1))
                                       (c\<lparr>buffer := b\<rparr>) of
                                  (Some e, c') \<Rightarrow> (Some e, c')
                                | (None, c') \<Rightarrow>
                                    parseResponses (c'\<lparr>buffer := drop packetLength b\<rparr>))
                             else parseResponses (c\<lparr>buffer := drop packetLength b\<rparr>)))))
      else (None, c))"
  by pat_completeness auto
termination
proof (relation "measure (\<lambda>c. length (buffer c))")
  show "wf (measure (\<lambda>c. length (buffer c)))" by simp
next
  fix c :: controller and startIndex b packetLength packet r e c'
  assume "MIN_PACKET_SIZE \<le> length (buffer c)"
    and "b = (if 0 < startIndex then drop startIndex (buffer c) else buffer c)"
    and "\<not> length b < 3"
    and "packetLength = HEADER_SIZE + LENGTH_SIZE + unat (b ! 2)"
  then show "(c'\<lparr>buffer := drop packetLength b\<rparr>, c) \<in> measure (\<lambda>c. length (buffer c))"
    by (auto simp: HEADER_SIZE_def LENGTH_SIZE_def)
next
  fix c :: controller and startIndex b packetLength packet
  assume "MIN_PACKET_SIZE \<le> length (buffer c)"
    and "b = (if 0 < startIndex then drop startIndex (buffer c) else buffer c)"
    and "\<not> length b < 3"
    and "packetLength = HEADER_SIZE + LENGTH_SIZE + unat (b ! 2)"
  then show "(c\<lparr>buffer := drop packetLength b\<rparr>, c) \<in> measure (\<lambda>c. length (buffer c))"
    by (auto simp: HEADER_SIZE_def LENGTH_SIZE_def)
qed

declare parseResponses.simps [simp del]

text \<open>
  \<open>_sendCommand\<close>. The result of the call is the exception thrown or the promise
  returned: the already resolved one, or the new promise of a call that waits.
\<close>

datatype promise = Done | Pending nat

definition byteNumber :: "byte \<Rightarrow> number" where
  "byteNumber b = Num (real (unat b))"

definition buildCommand :: "byte \<Rightarrow> byte list \<Rightarrow> error + byte list" where
  "buildCommand commandId encodedData =
     (let length' = length encodedData + 2;
          totalLength = HEADER_SIZE + LENGTH_SIZE + COMMAND_ID_SIZE + length encodedData + FOOTER_SIZE
      in bind (writeUInt8 (Buffer_alloc totalLength) (byteNumber HEADER) 0) (\<lambda>command.
         bind (writeUInt8 command (byteNumber HEADER) 1) (\<lambda>command.
         bind (writeUInt8 command (Num (real length')) 2) (\<lambda>command.
         bind (writeUInt8 command (byteNumber commandId) 3) (\<lambda>command.
         writeUInt8
           (if 0 < length encodedData then copy encodedData command 4 else command)
           (byteNumber FOOTER) (4 + length encodedData))))))"

definition sendCommand ::
  "byte \<Rightarrow> number list option \<Rightarrow> bool \<Rightarrow> controller \<Rightarrow> (error + promise) \<times> controller" where
  "sendCommand commandId data waitForResponse c =
     (if \<not> isConnected c then (Inl NotConnected, c)
      else case port c of
        None \<Rightarrow> (Inl PortNotInitialized, c)
      | Some written \<Rightarrow>
          (case bind (encodeData commandId data) (buildCommand commandId) of
             Inl e \<Rightarrow> (Inl e, c)
           | Inr command' \<Rightarrow>
               (let c1 = c\<lparr>port := Some (written @ [command'])\<rparr>
                in if waitForResponse then
                     (let k = calls c1
                      in (Inr (Pending k),
                          c1\<lparr>calls := k + 1,
                             timers := timers c1 @
                               [\<lparr>owner = k, timerCommand = commandId,
                                 expiry = clock c1 + getCommandTimeout commandId\<rparr>],
                             responseQueue := responseQueue c1 @
                               [\<lparr>command = commandId, call = k\<rparr>]\<rparr>))
                   else (Inr Done, c1))))"

text \<open>
  The callback of the timeout of \<open>_sendCommand\<close>: it removes the first entry of the queue
  with the command id of its call, if there is one, and rejects the promise of its call.
\<close>

definition timeoutCallback :: "timer \<Rightarrow> controller \<Rightarrow> controller" where
  "timeoutCallback t c =
     settle (owner t) (Rejected (CommandTimeout (timerCommand t)))
       (case findIndex (\<lambda>item. command item = timerCommand t) (responseQueue c) of
          Some index \<Rightarrow> c\<lparr>responseQueue := splice1 index (responseQueue c)\<rparr>
        | None \<Rightarrow> c)"

text \<open>
  The event loop runs the timer that is due first; of two timers due at the same instant,
  the one created first.
\<close>

fun earliest :: "timer list \<Rightarrow> timer option" where
  "earliest [] = None"
| "earliest (t # ts) =
     (case earliest ts of
        None \<Rightarrow> Some t
      | Some u \<Rightarrow> if expiry u < expiry t then Some u else Some t)"

definition fireTimer :: "controller \<Rightarrow> controller" where
  "fireTimer c =
     (case earliest (timers c) of
        None \<Rightarrow> c
      | Some t \<Rightarrow>
          if expiry t \<le> clock c then timeoutCallback t (clearTimeout (owner t) c) else c)"

text \<open>
  What can happen to a controller: the events of the port (\<open>open\<close>, \<open>close\<close>, \<open>error\<close>,
  \<open>data\<close>), a call of \<open>_sendCommand\<close>, the passing of time, and the event loop running
  the next timer. An exception that leaves the \<open>data\<close> handler leaves the controller as
  it was when thrown.
\<close>

datatype event =
    PortOpen
  | PortClose
  | PortError
  | PortData "byte list"
  | Send byte "number list option" bool
  | Elapse nat
  | RunTimer

fun step :: "controller \<Rightarrow> event \<Rightarrow> controller" where
  "step c PortOpen = c\<lparr>isConnected := True\<rparr>"
| "step c PortClose = c\<lparr>isConnected := False\<rparr>"
| "step c PortError = c\<lparr>isConnected := False\<rparr>"
| "step c (PortData chunk) = snd (parseResponses (c\<lparr>buffer := buffer c @ chunk\<rparr>))"
| "step c (Send commandId data waitForResponse) = snd (sendCommand commandId data waitForResponse c)"
| "step c (Elapse ms) = c\<lparr>clock := clock c + ms\<rparr>"
| "step c RunTimer = fireTimer c"

definition run :: "event list \<Rightarrow> controller" where
  "run events = foldl step newController events"

section \<open>The public operations (mycobot-controller.ts)\<close>





definition isServoEnable :: "number \<Rightarrow> controller \<Rightarrow> (error + promise) \<times> controller" where
  "isServoEnable servoId c =
     (if js_lt servoId (Num 1) \<or> js_gt servoId (Num 6) then
        (Inl (ValidationError ''Servo ID must be between 1 and 6''), c)
      else sendCommand IS_SERVO_ENABLE (Some [servoId]) True c)"

definition releaseServo :: "number \<Rightarrow> controller \<Rightarrow> (error + promise) \<times> controller" where
  "releaseServo servoId c =
     (if js_lt servoId (Num 1) \<or> js_gt servoId (Num 6) then
        (Inl (ValidationError ''Servo ID must be between 1 and 6''), c)
      else sendCommand RELEASE_SERVO (Some [servoId]) False c)"

definition focusServo :: "number \<Rightarrow> controller \<Rightarrow> (error + promise) \<times> controller" where
  "focusServo servoId c =
     (if js_lt servoId (Num 1) \<or> js_gt servoId (Num 6) then
        (Inl (ValidationError ''Servo ID must be between 1 and 6''), c)
      else sendCommand FOCUS_SERVO (Some [servoId]) False c)"

definition setSpeed :: "number \<Rightarrow> controller \<Rightarrow> (error + promise) \<times> controller" where
  "setSpeed speed c =
     (if js_lt speed (Num 0) \<or> js_gt speed (Num 100) then
        (Inl (ValidationError ''Speed must be between 0 and 100''), c)
      else sendCommand SET_SPEED (Some [speed]) False c)"

definition sendAngles :: "number list \<Rightarrow> number \<Rightarrow> controller \<Rightarrow> (error + promise) \<times> controller" where
  "sendAngles angles speed c =
     (if length angles \<noteq> 6 then
        (Inl (ValidationError ''Angles must be an array of exactly 6 numbers''), c)
      else if js_lt speed (Num 0) \<or> js_gt speed (Num 100) then
        (Inl (ValidationError ''Speed must be between 0 and 100''), c)
      else sendCommand SEND_ANGLES (Some (angles @ [speed])) False c)"

definition sendAngle :: "number \<Rightarrow> number \<Rightarrow> number \<Rightarrow> controller \<Rightarrow> (error + promise) \<times> controller" where
  "sendAngle jointId angle speed c =
     (if js_lt jointId (Num 1) \<or> js_gt jointId (Num 6) then
        (Inl (ValidationError ''Joint ID must be between 1 and 6''), c)
      else if js_lt speed (Num 0) \<or> js_gt speed (Num 100) then
        (Inl (ValidationError ''Speed must be between 0 and 100''), c)
      else sendCommand SEND_ANGLE (Some [jointId, angle, speed]) False c)"

definition sendCoords ::
  "number list \<Rightarrow> number \<Rightarrow> number \<Rightarrow> controller \<Rightarrow> (error + promise) \<times> controller" where
  "sendCoords coords speed interpolation c =
     (if length coords \<noteq> 6 then
        (Inl (ValidationError ''Coordinates must be an array of exactly 6 numbers''), c)
      else if js_lt speed (Num 0) \<or> js_gt speed (Num 100) then
        (Inl (ValidationError ''Speed must be between 0 and 100''), c)
      else if \<not> js_eq interpolation (Num 0) \<and> \<not> js_eq interpolation (Num 1) then
        (Inl (ValidationError ''Mode must be 0 (angular) or 1 (linear)''), c)
      else sendCommand SEND_COORDS (Some (coords @ [speed, interpolation])) False c)"

definition sendCoord :: "number \<Rightarrow> number \<Rightarrow> number \<Rightarrow> controller \<Rightarrow> (error + promise) \<times> controller" where
  "sendCoord coord v speed c =
     (if js_lt coord (Num 1) \<or> js_gt coord (Num 6) then
        (Inl (ValidationError ''Coordinate index must be between 1 and 6''), c)
      else if js_lt speed (Num 0) \<or> js_gt speed (Num 100) then
        (Inl (ValidationError ''Speed must be between 0 and 100''), c)
      else sendCommand SEND_COORD (Some [coord, v, speed]) False c)"

definition setGripperState :: "number \<Rightarrow> number \<Rightarrow> controller \<Rightarrow> (error + promise) \<times> controller" where
  "setGripperState state speed c =
     (if \<not> js_eq state (Num 0) \<and> \<not> js_eq state (Num 1) then
        (Inl (ValidationError ''Gripper state must be 0 (open) or 1 (close)''), c)
      else if js_lt speed (Num 0) \<or> js_gt speed (Num 100) then
        (Inl (ValidationError ''Speed must be between 0 and 100''), c)
      else sendCommand SET_GRIPPER_STATE (Some [state, speed]) False c)"

definition setGripperValue :: "number \<Rightarrow> number \<Rightarrow> controller \<Rightarrow> (error + promise) \<times> controller" where
  "setGripperValue v speed c =
     (if js_lt speed (Num 0) \<or> js_gt speed (Num 100) then
        (Inl (ValidationError ''Speed must be between 0 and 100''), c)
      else sendCommand SET_GRIPPER_VALUE (Some [v, speed]) False c)"

definition getEncoder :: "number \<Rightarrow> controller \<Rightarrow> (error + promise) \<times> controller" where
  "getEncoder jointId c =
     (if js_lt jointId (Num 1) \<or> js_gt jointId (Num 6) then
        (Inl (ValidationError ''Joint ID must be between 1 and 6''), c)
      else sendCommand GET_ENCODER (Some [jointId]) True c)"

definition setEncoder :: "number \<Rightarrow> number \<Rightarrow> controller \<Rightarrow> (error + promise) \<times> controller" where
  "setEncoder jointId v c =
     (if js_lt jointId (Num 1) \<or> js_gt jointId (Num 6) then
        (Inl (ValidationError ''Joint ID must be between 1 and 6''), c)
      else sendCommand SET_ENCODER (Some [jointId, v]) False c)"

definition setEncoders :: "number list \<Rightarrow> controller \<Rightarrow> (error + promise) \<times> controller" where
  "setEncoders encoders c =
     (if length encoders \<noteq> 6 then
        (Inl (ValidationError ''Encoders must be an array of exactly 6 numbers''), c)
      else sendCommand SET_ENCODERS (Some encoders) False c)"

section \<open>The recorder (movement-recorder.ts)\<close>

record movement_frame =
  timestamp :: number
  position :: "number list"
  mode :: string

text \<open>
  The fields of \<open>MovementRecorder\<close>, and what the event loop holds for its sampler:
  \<open>timeouts\<close> are the handles of the timeouts of \<open>recordFrame\<close> that are set and have
  neither fired nor been cleared, \<open>handles\<close> counts the timeouts created, and \<open>reads\<close> has,
  for each run of \<open>recordFrame\<close> that awaits its read of the position, the number of the
  call whose promise it awaits and the \<open>currentTime\<close> it computed before it awaited. The
  controller the recorder drives is passed to each function beside it.
\<close>

record recorder =
  sampleRate :: number
  recordingMode :: string
  recordingInterval :: number
  isRecording :: bool
  isPlaying :: bool
  recordingStartTime :: number
  currentRecording :: "movement_frame list"
  recordingTimer :: "nat option"
  timeouts :: "nat list"
  handles :: nat
  reads :: "(nat \<times> number) list"

text \<open>The constructor.\<close>

definition newRecorder :: "number \<Rightarrow> string \<Rightarrow> recorder" where
  "newRecorder rate recMode =
     \<lparr>sampleRate = rate, recordingMode = recMode, recordingInterval = js_div (Num 1000) rate,
      isRecording = False, isPlaying = False, recordingStartTime = Num 0,
      currentRecording = [], recordingTimer = None, timeouts = [], handles = 0, reads = []\<rparr>"

text \<open>
  \<open>this.recordingTimer = setTimeout(() => { void recordFrame(); }, this.recordingInterval)\<close>
\<close>

definition setRecordingTimer :: "recorder \<Rightarrow> recorder" where
  "setRecordingTimer r =
     r\<lparr>recordingTimer := Some (handles r), timeouts := timeouts r @ [handles r],
       handles := handles r + 1\<rparr>"


text \<open>
  The value a read resolves with is what \<open>_decodeData\<close> returned for \<open>GET_ANGLES\<close> or
  \<open>GET_COORDS\<close>, a vector.
\<close>

definition positionOf :: "response \<Rightarrow> number list" where
  "positionOf v = (case v of RVector xs \<Rightarrow> xs | _ \<Rightarrow> [])"

text \<open>
  The second step, \<open>recordFrame_resume\<close>, runs when the promise of call \<open>k\<close>, which a
  run awaits, has been settled; \<open>result\<close> is how. It does not test \<open>isRecording\<close> again:
  after a read that succeeded it pushes a frame with the \<open>currentTime\<close> of the first step
  onto what \<open>this.currentRecording\<close> is now, and both branches set the timeout of the next
  run.
\<close>

definition recordFrame_resume :: "nat \<Rightarrow> outcome \<Rightarrow> recorder \<Rightarrow> recorder" where
  "recordFrame_resume k result r =
     (case find (\<lambda>read. fst read = k) (reads r) of
        None \<Rightarrow> r
      | Some read \<Rightarrow>
          (let currentTime = snd read;
               r1 = r\<lparr>reads := filter (\<lambda>read. fst read \<noteq> k) (reads r)\<rparr>
           in case result of
                Resolved v \<Rightarrow>
                  setRecordingTimer
                    (r1\<lparr>currentRecording := currentRecording r1 @
                          [\<lparr>timestamp = currentTime, position = positionOf v,
                            mode = recordingMode r1\<rparr>]\<rparr>)
              | Rejected e \<Rightarrow> setRecordingTimer r1))"





definition resumeSettled :: "(nat \<times> outcome) list \<Rightarrow> recorder \<Rightarrow> recorder" where
  "resumeSettled news r = foldl (\<lambda>r (k, result). recordFrame_resume k result r) r news"






section \<open>The player (movement-recorder.ts)\<close>

text \<open>
  \<open>setTimeout(callback, after)\<close> of the runtime (Node.js): a delay that is not between 1
  and \<open>TIMEOUT_MAX\<close> (\<open>2^31 - 1\<close>), \<open>NaN\<close> included, is set to 1, and the timer runs for the
  integer part of the delay. \<open>setTimeout_delay\<close> is the number of milliseconds the timer
  is set for.
\<close>

definition TIMEOUT_MAX :: real where "TIMEOUT_MAX = 2147483647"

definition setTimeout_delay :: "number \<Rightarrow> nat" where
  "setTimeout_delay after =
     (if js_ge after (Num 1) \<and> js_le after (Num TIMEOUT_MAX) then
        (case after of Num x \<Rightarrow> nat (js_trunc x) | _ \<Rightarrow> 1)
      else 1)"

text \<open>
  What the player does, in order: a move command that went out for the frame of an index,
  a move that threw, and \<open>Slept n\<close> for
  \<^verbatim>\<open>await new Promise((resolve) => setTimeout(resolve, after))\<close>, where \<open>n\<close> is the
  number of milliseconds the timer is set for.
\<close>

datatype play_event =
    Moved nat
  | MoveFailed nat error
  | Slept nat

definition sleep :: "number \<Rightarrow> play_event" where
  "sleep after = Slept (setTimeout_delay after)"

definition delayToNext :: "number \<Rightarrow> number \<Rightarrow> play_event list" where
  "delayToNext originalDelay speed =
     (let adjustedDelay = js_div originalDelay speed
      in if js_gt adjustedDelay (Num 0) then [sleep adjustedDelay] else [])"

text \<open>
  The move command of a frame: a full joint move for \<open>angles\<close>, a full coordinate move
  with linear interpolation for \<open>coords\<close>, and a joint move for any other mode.
\<close>

definition moveTo ::
  "string \<Rightarrow> movement_frame \<Rightarrow> number \<Rightarrow> controller \<Rightarrow> (error + promise) \<times> controller" where
  "moveTo recMode frame moveSpeed c =
     (if recMode = ''angles'' then sendAngles (position frame) moveSpeed c
      else if recMode = ''coords'' then sendCoords (position frame) moveSpeed (Num 1) c
      else sendAngles (position frame) moveSpeed c)"

text \<open>
  The body of the loop of \<open>_playRecordingOnce\<close> for a frame that is there: the move, then
  the delay to the next frame, or the pause of 50 ms when the move threw.
\<close>

definition playFrame ::
  "movement_frame option list \<Rightarrow> string \<Rightarrow> number \<Rightarrow> number \<Rightarrow> nat \<Rightarrow> movement_frame
     \<Rightarrow> controller \<Rightarrow> play_event list \<times> controller" where
  "playFrame frames recMode speed moveSpeed i frame c =
     (case moveTo recMode frame moveSpeed c of
        (Inl e, c') \<Rightarrow> ([MoveFailed i e, sleep (Num 50)], c')
      | (Inr p, c') \<Rightarrow>
          (Moved i #
             (if i + 1 < length frames then
                (case frames ! (i + 1) of
                   Some nextFrame \<Rightarrow>
                     delayToNext (js_sub (timestamp nextFrame) (timestamp frame)) speed
                 | None \<Rightarrow> [])
              else []),
           c'))"

text \<open>
  \<open>stopPlayback\<close>. Its own pause of 100 ms is awaited by its caller, not by the player.
\<close>

definition stopPlayback :: "recorder \<Rightarrow> (error + unit) \<times> recorder" where
  "stopPlayback r =
     (if \<not> isPlaying r then (Inr (), r)
      else (Inr (), r\<lparr>isPlaying := False\<rparr>))"

text \<open>
  \<open>_playRecordingOnce\<close> from index \<open>i\<close> on. The loop awaits inside the body only, so a
  call of \<open>stopPlayback\<close> from outside falls into the body of some frame: \<open>stopDuring i\<close>
  tells whether one falls into the body of frame \<open>i\<close>. A frame that is not there is
  skipped without awaiting.
\<close>

function playRecordingOnce ::
  "(nat \<Rightarrow> bool) \<Rightarrow> movement_frame option list \<Rightarrow> string \<Rightarrow> number \<Rightarrow> number \<Rightarrow> nat
     \<Rightarrow> recorder \<Rightarrow> controller \<Rightarrow> play_event list \<times> recorder \<times> controller" where
  "playRecordingOnce stopDuring frames recMode speed moveSpeed i r c =
     (if i < length frames \<and> isPlaying r then
        (case frames ! i of
           None \<Rightarrow> playRecordingOnce stopDuring frames recMode speed moveSpeed (i + 1) r c
         | Some frame \<Rightarrow>
             (case playFrame frames recMode speed moveSpeed i frame c of
                (events, c') \<Rightarrow>
                  (case playRecordingOnce stopDuring frames recMode speed moveSpeed (i + 1)
                          (if stopDuring i then snd (stopPlayback r) else r) c' of
                     (events', rc) \<Rightarrow> (events @ events', rc))))
      else ([], r, c))"
  by pat_completeness auto
termination
  by (relation "measure (\<lambda>(stopDuring, frames, recMode, speed, moveSpeed, i, r, c). length frames - i)")
     auto

declare playRecordingOnce.simps [simp del]

section \<open>Predicates of the statements and of the proofs\<close>

text \<open>A value whose hundredfold lies in the range of a signed 16-bit integer.\<close>

definition fits_int16 :: "real \<Rightarrow> bool" where
  "fits_int16 x \<longleftrightarrow> - 32768 \<le> x * 100 \<and> x * 100 \<le> 32767"

text \<open>The integer that \<open>Math.round(x * 100)\<close> is for a finite value \<open>x\<close>.\<close>

definition hundredths :: "real \<Rightarrow> int" where
  "hundredths x = \<lfloor>x * 100 + 1 / 2\<rfloor>"

text \<open>
  What holds of a controller after any sequence of events: the queue and the timers are in
  the order their calls were made; an entry of the queue still has its timer; a pending
  timer belongs to a call that is not settled yet; timers of one command id are due in the
  order they were created (the timeout depends on the command id only, and the clock does
  not go back); a call that is not settled still has its timer.
\<close>

definition consistent :: "controller \<Rightarrow> bool" where
  "consistent c \<longleftrightarrow>
       sorted_wrt (<) (map call (responseQueue c))
     \<and> sorted_wrt (<) (map owner (timers c))
     \<and> (\<forall>item \<in> set (responseQueue c).
           \<exists>t \<in> set (timers c). owner t = call item \<and> timerCommand t = command item)
     \<and> (\<forall>t \<in> set (timers c).
           owner t < calls c \<and> owner t \<notin> fst ` set (settled c)
         \<and> expiry t \<le> clock c + getCommandTimeout (timerCommand t))
     \<and> (\<forall>t \<in> set (timers c). \<forall>u \<in> set (timers c).
           owner t < owner u \<and> timerCommand t = timerCommand u \<longrightarrow> expiry t \<le> expiry u)
     \<and> (\<forall>k < calls c. k \<in> fst ` set (settled c) \<or> k \<in> owner ` set (timers c))
     \<and> fst ` set (settled c) \<subseteq> {..< calls c}"




section \<open>Properties of the codec\<close>

lemmas PROTOCOL_defs =
  HEADER_def FOOTER_def HEADER_SIZE_def FOOTER_SIZE_def LENGTH_SIZE_def
  COMMAND_ID_SIZE_def MIN_PACKET_SIZE_def

text \<open>Both recursions unfold one iteration at a time, under their conditions.\<close>

lemma decodeValues_done: "\<not> i < length data \<Longrightarrow> decodeValues data i acc = Inr acc"
  by (subst decodeValues.simps) simp

lemma decodeValues_step:
  "i < length data \<Longrightarrow> decodeValues data i acc =
     (case readInt16BE data i of Inl e \<Rightarrow> Inl e
      | Inr v \<Rightarrow> decodeValues data (i + 2) (acc @ [Num (real_of_int v / 100)]))"
  by (subst decodeValues.simps) simp

lemma writeValues_done: "\<not> i < 6 \<Longrightarrow> writeValues data i bf = Inr bf"
  by (subst writeValues.simps) simp

lemma writeValues_step:
  "i < 6 \<Longrightarrow> writeValues data i bf =
     (case writeInt16BE bf (Math_round (js_mul (data ! i) (Num 100))) (i * 2) of
        Inl e \<Rightarrow> Inl e
      | Inr bf' \<Rightarrow> writeValues data (i + 1) bf')"
  by (subst writeValues.simps) simp

lemma byte_of_int: "uint (word_of_int k :: byte) = k mod 256"
  by (simp add: unsigned_of_int take_bit_eq_mod)

lemma split16: "(n::int) mod 65536 = 256 * (n div 256 mod 256) + n mod 256"
  using zmod_zmult2_eq [of 256 n 256] by simp

lemma int16_val:
  assumes "- 32768 \<le> (n::int)" "n \<le> 32767"
  shows "(if 32768 \<le> n mod 65536 then n mod 65536 - 65536 else n mod 65536) = n"
proof (cases "0 \<le> n")
  case True
  with assms have "n mod 65536 = n" by simp
  with assms show ?thesis by simp
next
  case False
  with assms have "n mod 65536 = n + 65536"
    by (smt (verit) mod_pos_pos_trivial mod_add_self2)
  with assms False show ?thesis by simp
qed

lemma readInt16BE_written:
  assumes "- 32768 \<le> n" "n \<le> 32767" "offset + 1 < length buf"
    and "buf ! offset = word_of_int (n div 2 ^ 8)" "buf ! (offset + 1) = word_of_int n"
  shows "readInt16BE buf offset = Inr n"
proof -
  have "int (unat (buf ! offset)) * 2 ^ 8 + int (unat (buf ! (offset + 1))) = n mod 65536"
    using assms(4,5) by (simp add: byte_of_int split16)
  then show ?thesis
    using assms(1,2,3) int16_val [of n] by (auto simp: readInt16BE_def Let_def split: if_splits)
qed

lemma hundredths_range:
  "fits_int16 x \<Longrightarrow> - 32768 \<le> hundredths x \<and> hundredths x \<le> 32767"
  unfolding hundredths_def fits_int16_def by linarith

lemma hundredths_close: "\<bar>real_of_int (hundredths x) / 100 - x\<bar> \<le> 1 / 100"
  unfolding hundredths_def by linarith

lemma Math_round_hundredths: "Math_round (js_mul (Num x) (Num 100)) = Num (of_int (hundredths x))"
  by (simp add: hundredths_def)

lemma js_trunc_of_int: "js_trunc (of_int k) = k"
  by (simp add: js_trunc_def)

lemma toUint8_of_int: "toUint8 (Num (of_int k)) = word_of_int k"
  by (simp add: toUint8_def js_trunc_of_int)

lemma high_byte: "(word_of_int (k mod 2 ^ 32 div 2 ^ 8) :: byte) = word_of_int (k div 2 ^ 8)"
proof -
  have "k mod 2 ^ 32 div 2 ^ 8 mod 2 ^ 8 = k div 2 ^ 8 mod 2 ^ 8"
  proof -
    have "k mod 4294967296 = 256 * (k div 256 mod 16777216) + k mod 256"
      using zmod_zmult2_eq [of 16777216 k 256] by simp
    then have "k mod 4294967296 div 256 = k div 256 mod 16777216"
      by simp
    moreover have "k div 256 mod 16777216 mod 256 = k div 256 mod 256"
      by (simp add: mod_mod_cancel)
    ultimately show ?thesis by simp
  qed
  then show ?thesis
    by (simp add: word_eq_iff_unsigned [where ?'a = int] byte_of_int)
qed

lemma toUint8_ushr: "toUint8 (js_ushr (Num (of_int k)) 8) = word_of_int (k div 2 ^ 8)"
  unfolding js_ushr_def toUint32_def number.case js_trunc_of_int toUint8_of_int
  by (rule high_byte)

lemma writeInt16BE_ok:
  assumes "- 32768 \<le> k" "k \<le> 32767" "offset + 1 < length buf"
  shows "writeInt16BE buf (Num (of_int k)) offset
           = Inr (buf[offset := word_of_int (k div 2 ^ 8), offset + 1 := word_of_int k])"
proof -
  have "\<not> (js_gt (Num (of_int k)) (Num 32767) \<or> js_lt (Num (of_int k)) (Num (- 32768)))"
    using assms(1,2) by (simp add: js_gt_def)
  then show ?thesis
    using assms(3) unfolding writeInt16BE_def toUint8_ushr toUint8_of_int by simp
qed

lemma writeValues_ok:
  assumes "i \<le> 6" "12 \<le> length buf"
    "\<forall>j. i \<le> j \<and> j < 6 \<longrightarrow> d ! j = Num (v ! j) \<and> fits_int16 (v ! j)"
  shows "\<exists>b. writeValues d i buf = Inr b \<and> length b = length buf
           \<and> (\<forall>j. i \<le> j \<and> j < 6 \<longrightarrow>
                  b ! (2 * j) = word_of_int (hundredths (v ! j) div 2 ^ 8)
                \<and> b ! (2 * j + 1) = word_of_int (hundredths (v ! j)))
           \<and> (\<forall>k. k < 2 * i \<or> 12 \<le> k \<longrightarrow> b ! k = buf ! k)"
  using assms
proof (induction d i buf rule: writeValues.induct)
  case (1 data i bf)
  show ?case
  proof (cases "i < 6")
    case False
    with "1.prems" show ?thesis by (auto simp: writeValues_done)
  next
    case True
    let ?v = "hundredths (v ! i)"
    let ?b = "bf[i * 2 := word_of_int (?v div 2 ^ 8), i * 2 + 1 := word_of_int ?v]"
    from True "1.prems" have num: "data ! i = Num (v ! i)" by simp
    from True "1.prems" have rng: "- 32768 \<le> ?v \<and> ?v \<le> 32767"
      by (intro hundredths_range) auto
    from True "1.prems" have fit: "i * 2 + 1 < length bf" by simp
    have w: "writeInt16BE bf (Math_round (js_mul (data ! i) (Num 100))) (i * 2) = Inr ?b"
      unfolding num Math_round_hundredths using rng fit by (simp add: writeInt16BE_ok)
    have "\<exists>b. writeValues data (i + 1) ?b = Inr b \<and> length b = length ?b
           \<and> (\<forall>j. i + 1 \<le> j \<and> j < 6 \<longrightarrow>
                  b ! (2 * j) = word_of_int (hundredths (v ! j) div 2 ^ 8)
                \<and> b ! (2 * j + 1) = word_of_int (hundredths (v ! j)))
           \<and> (\<forall>k. k < 2 * (i + 1) \<or> 12 \<le> k \<longrightarrow> b ! k = ?b ! k)"
      using True "1.prems" by (intro "1.IH" [OF True w]) auto
    then obtain b where b: "writeValues data (i + 1) ?b = Inr b" "length b = length bf"
      and hi: "\<forall>j. i + 1 \<le> j \<and> j < 6 \<longrightarrow>
                  b ! (2 * j) = word_of_int (hundredths (v ! j) div 2 ^ 8)
                \<and> b ! (2 * j + 1) = word_of_int (hundredths (v ! j))"
      and lo: "\<forall>k. k < 2 * (i + 1) \<or> 12 \<le> k \<longrightarrow> b ! k = ?b ! k"
      by auto
    have eq: "writeValues data i bf = Inr b"
      using True w b(1) by (simp add: writeValues_step)
    have at_i: "b ! (2 * i) = word_of_int (?v div 2 ^ 8) \<and> b ! (2 * i + 1) = word_of_int ?v"
      using lo fit by (simp add: mult.commute)
    have keep: "\<forall>k. k < 2 * i \<or> 12 \<le> k \<longrightarrow> b ! k = bf ! k"
      using lo True by auto
    have vals: "\<forall>j. i \<le> j \<and> j < 6 \<longrightarrow>
                  b ! (2 * j) = word_of_int (hundredths (v ! j) div 2 ^ 8)
                \<and> b ! (2 * j + 1) = word_of_int (hundredths (v ! j))"
    proof (intro allI impI)
      fix j assume j: "i \<le> j \<and> j < 6"
      show "b ! (2 * j) = word_of_int (hundredths (v ! j) div 2 ^ 8)
                \<and> b ! (2 * j + 1) = word_of_int (hundredths (v ! j))"
      proof (cases "j = i")
        case True
        with at_i show ?thesis by simp
      next
        case False
        with j hi show ?thesis by simp
      qed
    qed
    from eq b(2) vals keep show ?thesis by blast
  qed
qed


lemma decodeValues_even:
  assumes "even (length data)" "even i"
  shows "\<exists>ds. decodeValues data i acc = Inr (acc @ map Num ds) \<and> length ds = (length data - i) div 2
           \<and> (\<forall>k < length ds. \<exists>n. readInt16BE data (i + 2 * k) = Inr n \<and> ds ! k = real_of_int n / 100)"
  using assms
proof (induction data i acc rule: decodeValues.induct)
  case (1 data i decoded)
  show ?case
  proof (cases "i < length data")
    case False
    then show ?thesis by (simp add: decodeValues_done)
  next
    case True
    with "1.prems" have "i + 1 < length data"
      by presburger
    then obtain v where v: "readInt16BE data i = Inr v"
      by (simp add: readInt16BE_def Let_def)
    from "1.IH" [OF True v] "1.prems"
    obtain ds where ds: "decodeValues data (i + 2) (decoded @ [Num (real_of_int v / 100)])
          = Inr ((decoded @ [Num (real_of_int v / 100)]) @ map Num ds)"
        "length ds = (length data - (i + 2)) div 2"
        "\<forall>k < length ds. \<exists>n. readInt16BE data (i + 2 + 2 * k) = Inr n \<and> ds ! k = real_of_int n / 100"
      by auto
    let ?ds = "(real_of_int v / 100) # ds"
    have 1: "decodeValues data i decoded = Inr (decoded @ map Num ?ds)"
      using True v ds(1) by (simp add: decodeValues_step)
    have 2: "length ?ds = (length data - i) div 2"
      using ds(2) \<open>i + 1 < length data\<close> by simp
    have 3: "\<forall>k < length ?ds. \<exists>n. readInt16BE data (i + 2 * k) = Inr n \<and> ?ds ! k = real_of_int n / 100"
    proof (intro allI impI)
      fix k assume k: "k < length ?ds"
      show "\<exists>n. readInt16BE data (i + 2 * k) = Inr n \<and> ?ds ! k = real_of_int n / 100"
      proof (cases k)
        case 0
        with v show ?thesis by simp
      next
        case (Suc k')
        with k ds(3) show ?thesis by simp
      qed
    qed
    from 1 2 3 show ?thesis by blast
  qed
qed

lemma decode_written:
  assumes len: "length data = 12"
    and rng: "\<forall>j < 6. fits_int16 (d ! j)"
    and bytes: "\<forall>j < 6. data ! (2 * j) = word_of_int (hundredths (d ! j) div 2 ^ 8)
                \<and> data ! (2 * j + 1) = word_of_int (hundredths (d ! j))"
  shows "\<exists>decoded. decodeValues data 0 [] = Inr (map Num decoded) \<and> length decoded = 6
           \<and> (\<forall>j < 6. \<bar>decoded ! j - d ! j\<bar> \<le> 1 / 100)"
proof -
  from decodeValues_even [of data 0 "[]"] len
  obtain ds where ds: "decodeValues data 0 [] = Inr (map Num ds)" "length ds = 6"
      "\<forall>k < length ds. \<exists>n. readInt16BE data (2 * k) = Inr n \<and> ds ! k = real_of_int n / 100"
    by auto
  have "\<bar>ds ! j - d ! j\<bar> \<le> 1 / 100" if j: "j < 6" for j
  proof -
    let ?n = "hundredths (d ! j)"
    from j rng have r: "- 32768 \<le> ?n \<and> ?n \<le> 32767"
      by (intro hundredths_range) auto
    from j len have "2 * j + 1 < length data" by simp
    with r bytes j have "readInt16BE data (2 * j) = Inr ?n"
      by (intro readInt16BE_written) auto
    with ds(2,3) j have "ds ! j = real_of_int ?n / 100" by auto
    then show ?thesis by (simp only: hundredths_close)
  qed
  with ds(1,2) show ?thesis by blast
qed

lemma decodeValues_odd:
  "odd (length data) \<Longrightarrow> even i \<Longrightarrow> i < length data \<Longrightarrow> decodeValues data i acc = Inl RangeError"
proof (induction data i acc rule: decodeValues.induct)
  case (1 data i decoded)
  show ?case
  proof (cases "i + 1 < length data")
    case True
    then obtain v where v: "readInt16BE data i = Inr v"
      by (simp add: readInt16BE_def Let_def)
    from True "1.prems" have "i + 2 < length data"
      by presburger
    with 1 v show ?thesis
      by (simp add: decodeValues_step)
  next
    case False
    then have "readInt16BE data i = Inl RangeError"
      by (simp add: readInt16BE_def)
    with "1.prems" show ?thesis
      by (simp add: decodeValues_step)
  qed
qed

lemma encode_six_values:
  assumes v: "length v = 6" "\<forall>x \<in> set v. fits_int16 x"
    and buf: "12 \<le> n"
  shows "\<exists>b. writeValues (map Num v @ rest) 0 (Buffer_alloc n) = Inr b \<and> length b = n
           \<and> (\<exists>decoded. decodeValues (slice b 0 12) 0 [] = Inr (map Num decoded) \<and> length decoded = 6
                 \<and> (\<forall>i < 6. \<bar>decoded ! i - v ! i\<bar> \<le> 1 / 100))
           \<and> (\<forall>b' k x. 12 \<le> k \<longrightarrow> slice (b[k := x]) 0 12 = slice b 0 12)"
proof -
  have rng: "\<forall>j < 6. fits_int16 (v ! j)"
    using v by simp
  have "\<forall>j. 0 \<le> j \<and> j < 6 \<longrightarrow> (map Num v @ rest) ! j = Num (v ! j) \<and> fits_int16 (v ! j)"
    using v by (simp add: nth_append)
  from writeValues_ok [OF _ _ this, of "Buffer_alloc n"] buf
  obtain b where b: "writeValues (map Num v @ rest) 0 (Buffer_alloc n) = Inr b" "length b = n"
    and bytes: "\<forall>j. 0 \<le> j \<and> j < 6 \<longrightarrow>
        b ! (2 * j) = word_of_int (hundredths (v ! j) div 2 ^ 8)
      \<and> b ! (2 * j + 1) = word_of_int (hundredths (v ! j))"
    by (auto simp: Buffer_alloc_def)
  have len: "length (slice b 0 12) = 12"
    using b(2) buf by (simp add: slice_def)
  have "\<forall>j < 6. slice b 0 12 ! (2 * j) = word_of_int (hundredths (v ! j) div 2 ^ 8)
      \<and> slice b 0 12 ! (2 * j + 1) = word_of_int (hundredths (v ! j))"
    using bytes by (simp add: slice_def)
  from decode_written [OF len rng this]
  obtain decoded where d: "decodeValues (slice b 0 12) 0 [] = Inr (map Num decoded)" "length decoded = 6"
      "\<forall>j < 6. \<bar>decoded ! j - v ! j\<bar> \<le> 1 / 100"
    by blast
  moreover have "\<forall>b' k x. 12 \<le> k \<longrightarrow> slice (b[k := x]) 0 12 = slice b 0 12"
    by (simp add: slice_def take_update_cancel)
  ultimately show ?thesis using b by blast
qed

text \<open>
  C1. A vector of six finite values, each with its hundredfold in the signed 16-bit range, and a
  speed in 0..100 (and an interpolation mode 0 or 1 for coordinates): \<open>_encodeData\<close>
  of the multi-value move (\<open>SEND_ANGLES\<close>, \<open>SEND_COORDS\<close>) returns a payload, the
  vector decoder (\<open>_decodeData\<close> of \<open>GET_ANGLES\<close>, \<open>GET_COORDS\<close>) applied to its
  twelve value bytes returns six numbers, and each differs from the original by at most
  0.01.
\<close>

theorem C1_encode_decode_roundtrip:
  assumes "length v = 6" and "\<forall>x \<in> set v. fits_int16 x"
    and "0 \<le> speed" and "speed \<le> 100" and "interpolation = 0 \<or> interpolation = 1"
  shows "(\<exists>payload decoded.
            encodeData SEND_ANGLES (Some (map Num v @ [Num speed])) = Inr payload
          \<and> length payload = 13
          \<and> decodeData GET_ANGLES (slice payload 0 12) = Inr (RVector (map Num decoded))
          \<and> length decoded = 6
          \<and> (\<forall>i < 6. \<bar>decoded ! i - v ! i\<bar> \<le> 1 / 100))
       \<and> (\<exists>payload decoded.
            encodeData SEND_COORDS (Some (map Num v @ [Num speed, Num interpolation])) = Inr payload
          \<and> length payload = 14
          \<and> decodeData GET_COORDS (slice payload 0 12) = Inr (RVector (map Num decoded))
          \<and> length decoded = 6
          \<and> (\<forall>i < 6. \<bar>decoded ! i - v ! i\<bar> \<le> 1 / 100))"
proof
  from encode_six_values [OF assms(1,2), of 13 "[Num speed]"]
  obtain b decoded where b: "writeValues (map Num v @ [Num speed]) 0 (Buffer_alloc 13) = Inr b" "length b = 13"
    and d: "decodeValues (slice b 0 12) 0 [] = Inr (map Num decoded)" "length decoded = 6"
      "\<forall>i < 6. \<bar>decoded ! i - v ! i\<bar> \<le> 1 / 100"
    and upd: "\<forall>k x. 12 \<le> k \<longrightarrow> slice (b[k := x]) 0 12 = slice b 0 12"
    by auto
  let ?payload = "b[12 := toUint8 (Num speed)]"
  have "encodeData SEND_ANGLES (Some (map Num v @ [Num speed])) = Inr ?payload"
    using assms(1,3,4) b
    by (simp add: encodeData_def bind_def writeUInt8_def js_gt_def nth_append)
  moreover have "decodeData GET_ANGLES (slice ?payload 0 12) = Inr (RVector (map Num decoded))"
    using d(1) upd by (simp add: decodeData_def)
  ultimately show "\<exists>payload decoded.
            encodeData SEND_ANGLES (Some (map Num v @ [Num speed])) = Inr payload
          \<and> length payload = 13
          \<and> decodeData GET_ANGLES (slice payload 0 12) = Inr (RVector (map Num decoded))
          \<and> length decoded = 6
          \<and> (\<forall>i < 6. \<bar>decoded ! i - v ! i\<bar> \<le> 1 / 100)"
    using b(2) d(2,3) by (intro exI [of _ ?payload] exI [of _ decoded]) simp
next
  from encode_six_values [OF assms(1,2), of 14 "[Num speed, Num interpolation]"]
  obtain b decoded where b: "writeValues (map Num v @ [Num speed, Num interpolation]) 0 (Buffer_alloc 14) = Inr b" "length b = 14"
    and d: "decodeValues (slice b 0 12) 0 [] = Inr (map Num decoded)" "length decoded = 6"
      "\<forall>i < 6. \<bar>decoded ! i - v ! i\<bar> \<le> 1 / 100"
    and upd: "\<forall>k x. 12 \<le> k \<longrightarrow> slice (b[k := x]) 0 12 = slice b 0 12"
    by auto
  let ?payload = "b[12 := toUint8 (Num speed), 13 := toUint8 (Num interpolation)]"
  have "encodeData SEND_COORDS (Some (map Num v @ [Num speed, Num interpolation])) = Inr ?payload"
    using assms(1,3,4,5) b
    by (auto simp: encodeData_def bind_def writeUInt8_def js_gt_def nth_append)
  moreover have "slice ?payload 0 12 = slice b 0 12"
    by (simp add: slice_def take_update_cancel)
  then have "decodeData GET_COORDS (slice ?payload 0 12) = Inr (RVector (map Num decoded))"
    using d(1) by (simp add: decodeData_def)
  ultimately show "\<exists>payload decoded.
            encodeData SEND_COORDS (Some (map Num v @ [Num speed, Num interpolation])) = Inr payload
          \<and> length payload = 14
          \<and> decodeData GET_COORDS (slice payload 0 12) = Inr (RVector (map Num decoded))
          \<and> length decoded = 6
          \<and> (\<forall>i < 6. \<bar>decoded ! i - v ! i\<bar> \<le> 1 / 100)"
    using b(2) d(2,3) by (intro exI [of _ ?payload] exI [of _ decoded]) simp
qed

theorem C1_encode_decode_roundtrip_witness:
  "length [12.34, - 12.34, 0, 90.005, - 327.68, 327.67 :: real] = 6
   \<and> list_all fits_int16 [12.34, - 12.34, 0, 90.005, - 327.68, 327.67]
   \<and> (\<exists>payload decoded.
            encodeData SEND_ANGLES (Some (map Num [12.34, - 12.34, 0, 90.005, - 327.68, 327.67] @ [Num 50])) = Inr payload
          \<and> length payload = 13
          \<and> decodeData GET_ANGLES (slice payload 0 12) = Inr (RVector (map Num decoded))
          \<and> length decoded = 6
          \<and> (\<forall>i < 6. \<bar>decoded ! i - [12.34, - 12.34, 0, 90.005, - 327.68, 327.67] ! i\<bar> \<le> 1 / 100))
   \<and> (\<exists>payload decoded.
            encodeData SEND_COORDS (Some (map Num [12.34, - 12.34, 0, 90.005, - 327.68, 327.67] @ [Num 50, Num 1])) = Inr payload
          \<and> length payload = 14
          \<and> decodeData GET_COORDS (slice payload 0 12) = Inr (RVector (map Num decoded))
          \<and> length decoded = 6
          \<and> (\<forall>i < 6. \<bar>decoded ! i - [12.34, - 12.34, 0, 90.005, - 327.68, 327.67] ! i\<bar> \<le> 1 / 100))"
proof -
  have h1: "length [12.34, - 12.34, 0, 90.005, - 327.68, 327.67 :: real] = 6" by simp
  have h2: "\<forall>x \<in> set [12.34, - 12.34, 0, 90.005, - 327.68, 327.67 :: real]. fits_int16 x"
    by (simp add: fits_int16_def)
  have h3: "(0 :: real) \<le> 50" "(50 :: real) \<le> 100" "(1 :: real) = 0 \<or> (1 :: real) = 1"
    by simp_all
  have h4: "list_all fits_int16 [12.34, - 12.34, 0, 90.005, - 327.68, 327.67]"
    by (simp add: fits_int16_def)
  from C1_encode_decode_roundtrip [OF h1 h2 h3] h1 h4 show ?thesis by blast
qed

text \<open>
  C9. \<open>_decodeData\<close> is not total in the length of the payload. On a payload with an odd
  number of bytes the loop of the vector responses (\<open>GET_ANGLES\<close>, \<open>GET_COORDS\<close>,
  \<open>GET_ENCODERS\<close>) reaches the last byte, the 16-bit read there runs past the end of the
  bf, and decoding throws a \<open>RangeError\<close> instead of returning a value; so does
  decoding a \<open>GET_ENCODER\<close> response with fewer than two bytes.
\<close>

theorem C9_decodeData_throws:
  "(odd (length data) \<longrightarrow>
       readInt16BE data (length data - 1) = Inl RangeError
     \<and> decodeData GET_ANGLES data = Inl RangeError
     \<and> decodeData GET_COORDS data = Inl RangeError
     \<and> decodeData GET_ENCODERS data = Inl RangeError)
   \<and> (length data < 2 \<longrightarrow> decodeData GET_ENCODER data = Inl RangeError)"
proof (intro conjI impI)
  assume odd: "odd (length data)"
  then have pos: "0 < length data" by (cases data) auto
  show "readInt16BE data (length data - 1) = Inl RangeError"
    using pos by (simp add: readInt16BE_def)
  have "decodeValues data 0 [] = Inl RangeError"
    using odd pos by (intro decodeValues_odd) auto
  then show "decodeData GET_ANGLES data = Inl RangeError"
    and "decodeData GET_COORDS data = Inl RangeError"
    and "decodeData GET_ENCODERS data = Inl RangeError"
    by (simp_all add: decodeData_def)
next
  assume "length data < 2"
  then show "decodeData GET_ENCODER data = Inl RangeError"
    by (simp add: decodeData_def readInt16BE_def)
qed

theorem C9_decodeData_throws_witness:
  "odd (length [0x04, 0xD2, 0xFB :: byte])
   \<and> readInt16BE [0x04, 0xD2, 0xFB] (length [0x04, 0xD2, 0xFB :: byte] - 1) = Inl RangeError
   \<and> decodeData GET_ANGLES [0x04, 0xD2, 0xFB] = Inl RangeError
   \<and> decodeData GET_COORDS [0x04, 0xD2, 0xFB] = Inl RangeError
   \<and> decodeData GET_ENCODERS [0x04, 0xD2, 0xFB] = Inl RangeError
   \<and> length [0x04 :: byte] < 2
   \<and> decodeData GET_ENCODER [0x04] = Inl RangeError"
  using C9_decodeData_throws [of "[0x04, 0xD2, 0xFB]"] C9_decodeData_throws [of "[0x04]"]
  by simp

section \<open>Properties of the dispatcher\<close>

subsection \<open>The frame written by \<open>_sendCommand\<close>\<close>

lemma toUint8_real: "toUint8 (Num (real n)) = of_nat n"
  by (simp add: toUint8_def js_trunc_def)

lemma toUint8_byteNumber: "toUint8 (byteNumber b) = b"
  unfolding byteNumber_def toUint8_real by simp

lemma byteNumber_range: "\<not> (js_gt (byteNumber b) (Num 255) \<or> js_lt (byteNumber b) (Num 0))"
proof -
  have "unat b < 2 ^ LENGTH(8)" by (rule unsigned_less)
  then have "unat b \<le> 255" by simp
  then have "real (unat b) \<le> real 255" by (simp only: of_nat_le_iff)
  then show ?thesis unfolding byteNumber_def js_gt_def by (simp del: of_nat_unat)
qed

lemma writeUInt8_byte:
  "offset < length buf \<Longrightarrow> writeUInt8 buf (byteNumber b) offset = Inr (buf[offset := b])"
  by (simp add: writeUInt8_def byteNumber_range toUint8_byteNumber)

lemma writeUInt8_nat:
  "m \<le> 255 \<Longrightarrow> offset < length buf \<Longrightarrow> writeUInt8 buf (Num (real m)) offset = Inr (buf[offset := of_nat m])"
  by (simp add: writeUInt8_def js_gt_def toUint8_real)

lemma writeUInt8_nat_big:
  "255 < m \<Longrightarrow> writeUInt8 buf (Num (real m)) offset = Inl RangeError"
  by (simp add: writeUInt8_def js_gt_def)

lemma alloc_frame:
  "Buffer_alloc (HEADER_SIZE + LENGTH_SIZE + COMMAND_ID_SIZE + n + FOOTER_SIZE)
     = 0 # 0 # 0 # 0 # replicate n 0 @ [0]"
proof -
  have eq: "HEADER_SIZE + LENGTH_SIZE + COMMAND_ID_SIZE + n + FOOTER_SIZE = Suc (Suc (Suc (Suc (Suc n))))"
    by (simp add: PROTOCOL_defs)
  show ?thesis
    unfolding Buffer_alloc_def eq by (simp add: replicate_append_same)
qed

lemma frame_updates:
  "(a # xs)[0 := x] = x # xs"
  "(a # b # xs)[1 := x] = a # x # xs"
  "(a # b # c # xs)[2 := x] = a # b # x # xs"
  "(a # b # c # d # xs)[3 := x] = a # b # c # x # xs"
  by (simp_all add: numeral_2_eq_2 numeral_3_eq_3)

lemma frame_copy:
  "copy p (a # b # c # d # replicate (length p) 0 @ [z]) 4 = a # b # c # d # p @ [z]"
proof -
  have 4: "(4 :: nat) = Suc (Suc (Suc (Suc 0)))" by simp
  show ?thesis unfolding copy_def 4 by simp
qed

lemma frame_footer:
  "(a # b # c # d # p @ [z])[4 + length p := x] = a # b # c # d # p @ [x]"
proof -
  have 4: "4 + length p = length (a # b # c # d # p)" by simp
  have "((a # b # c # d # p) @ [z])[length (a # b # c # d # p) := x] = (a # b # c # d # p) @ [x]"
    by (rule list_update_length)
  then show ?thesis unfolding 4 by simp
qed

lemma buildCommand_layout:
  assumes "length payload \<le> 253"
  shows "buildCommand commandId payload
           = Inr ([HEADER, HEADER, of_nat (length payload + 2), commandId] @ payload @ [FOOTER])"
proof -
  define m where "m = length payload + 2"
  have m: "m \<le> 255" using assms by (simp add: m_def)
  have "buildCommand commandId payload
           = Inr ([HEADER, HEADER, of_nat m, commandId] @ payload @ [FOOTER])"
  proof (cases "payload = []")
    case True
    then show ?thesis
      unfolding buildCommand_def Let_def alloc_frame m_def [symmetric]
      by (simp add: bind_def writeUInt8_byte writeUInt8_nat m frame_updates)
  next
    case False
    then show ?thesis
      unfolding buildCommand_def Let_def alloc_frame m_def [symmetric]
      by (simp add: bind_def writeUInt8_byte writeUInt8_nat m
          frame_updates frame_copy frame_footer del: replicate.simps)
  qed
  then show ?thesis by (simp only: m_def)
qed

lemma buildCommand_too_long:
  assumes "253 < length payload"
  shows "buildCommand commandId payload = Inl RangeError"
proof -
  define m where "m = length payload + 2"
  have m: "255 < m" using assms by (simp add: m_def)
  show ?thesis
    unfolding buildCommand_def Let_def alloc_frame m_def [symmetric]
    by (simp add: bind_def writeUInt8_byte writeUInt8_nat_big m frame_updates)
qed


lemma unat_frame_length:
  assumes "n \<le> 253"
  shows "unat (of_nat (n + 2) :: byte) = n + 2"
proof -
  have "unat (of_nat (n + 2) :: byte) = (n + 2) mod 2 ^ LENGTH(8)"
    by (simp only: unat_of_nat)
  with assms show ?thesis by simp
qed


text \<open>
  C5. Whenever \<open>_sendCommand\<close> writes to the port, what it writes is
  \<open>[HEADER][HEADER][LEN][CMD][PAYLOAD...][FOOTER]\<close>: both header bytes are \<open>0xFE\<close>, the
  footer byte is \<open>0xFA\<close>, the payload is what \<open>_encodeData\<close> returned, and the length
  byte is the number of payload bytes plus 2.
\<close>

theorem C5_frame_layout:
  assumes "sendCommand commandId data waitForResponse c = (Inr p, c')"
  shows "\<exists>written payload len.
           port c = Some written
         \<and> encodeData commandId data = Inr payload
         \<and> port c' = Some (written @ [[HEADER, HEADER, len, commandId] @ payload @ [FOOTER]])
         \<and> unat len = length payload + 2
         \<and> HEADER = 0xFE \<and> FOOTER = 0xFA"
proof -
  from assms obtain written where w: "port c = Some written" and conn: "isConnected c"
    by (auto simp: sendCommand_def split: if_splits option.splits)
  from assms w conn obtain payload where pl: "encodeData commandId data = Inr payload"
    by (cases "encodeData commandId data") (auto simp: sendCommand_def bind_def)
  have short: "length payload \<le> 253"
  proof (rule ccontr)
    assume "\<not> length payload \<le> 253"
    then have "buildCommand commandId payload = Inl RangeError"
      by (intro buildCommand_too_long) simp
    with assms w conn pl show False
      by (simp add: sendCommand_def bind_def)
  qed
  let ?len = "of_nat (length payload + 2) :: byte"
  have "buildCommand commandId payload
          = Inr ([HEADER, HEADER, ?len, commandId] @ payload @ [FOOTER])"
    using short by (rule buildCommand_layout)
  with assms w conn pl
  have "port c' = Some (written @ [[HEADER, HEADER, ?len, commandId] @ payload @ [FOOTER]])"
    by (auto simp: sendCommand_def bind_def Let_def split: if_splits)
  moreover have "unat ?len = length payload + 2"
    using short by (rule unat_frame_length)
  ultimately show ?thesis
    using w pl by (simp add: HEADER_def FOOTER_def)
qed


theorem C5_frame_layout_witness:
  "sendCommand SEND_ANGLE (Some [Num 1, Num 45.5, Num 50]) False (newController\<lparr>isConnected := True\<rparr>)
     = (Inr Done, newController\<lparr>isConnected := True,
           port := Some [[0xFE, 0xFE, 0x06, 0x21, 0x01, 0x11, 0xC6, 0x32, 0xFA]]\<rparr>)
   \<and> (\<exists>written payload len.
           port (newController\<lparr>isConnected := True\<rparr>) = Some written
         \<and> encodeData SEND_ANGLE (Some [Num 1, Num 45.5, Num 50]) = Inr payload
         \<and> port (newController\<lparr>isConnected := True,
                 port := Some [[0xFE, 0xFE, 0x06, 0x21, 0x01, 0x11, 0xC6, 0x32, 0xFA]]\<rparr>)
             = Some (written @ [[HEADER, HEADER, len, SEND_ANGLE] @ payload @ [FOOTER]])
         \<and> unat len = length payload + 2
         \<and> HEADER = 0xFE \<and> FOOTER = 0xFA)"
proof -
  have h: "sendCommand SEND_ANGLE (Some [Num 1, Num 45.5, Num 50]) False (newController\<lparr>isConnected := True\<rparr>)
     = (Inr Done, newController\<lparr>isConnected := True,
           port := Some [[0xFE, 0xFE, 0x06, 0x21, 0x01, 0x11, 0xC6, 0x32, 0xFA]]\<rparr>)"
    by code_simp
  from C5_frame_layout [OF h] h show ?thesis by blast
qed

subsection \<open>Frames with a bad footer\<close>

lemma findStart_headers: "findStart i (HEADER # HEADER # rest) = Some i"
  by simp


text \<open>
  C4, as amended. Let the buffer hold at least \<open>MIN_PACKET_SIZE\<close> (5) bytes, begin with
  two header bytes, and hold the whole packet its length byte announces. If the last byte
  of that packet is not the footer, \<open>_parseResponses\<close> does with the buffer what it does
  with the buffer less that packet: the packet is removed, \<open>_handleResponse\<close> is not
  called for it, nothing is thrown for it, and the loop goes on with the rest.
\<close>

theorem C4_bad_footer_consumed:
  assumes "MIN_PACKET_SIZE \<le> length (buffer c)"
    and "buffer c ! 0 = HEADER" and "buffer c ! 1 = HEADER"
    and "HEADER_SIZE + LENGTH_SIZE + unat (buffer c ! 2) \<le> length (buffer c)"
    and "buffer c ! (HEADER_SIZE + LENGTH_SIZE + unat (buffer c ! 2) - 1) \<noteq> FOOTER"
  shows "parseResponses c
           = parseResponses (c\<lparr>buffer := drop (HEADER_SIZE + LENGTH_SIZE + unat (buffer c ! 2)) (buffer c)\<rparr>)"
proof -
  let ?n = "HEADER_SIZE + LENGTH_SIZE + unat (buffer c ! 2)"
  from assms(1) obtain x y rest where b: "buffer c = x # y # rest"
    by (cases "buffer c"; cases "tl (buffer c)") (auto simp: MIN_PACKET_SIZE_def)
  with assms(2,3) have start: "findStart 0 (buffer c) = Some 0"
    by simp
  have len3: "\<not> length (buffer c) < 3"
    using assms(1) by (simp add: MIN_PACKET_SIZE_def)
  have pos: "0 < ?n" by (simp add: HEADER_SIZE_def)
  have "slice (buffer c) 0 ?n ! (?n - 1) = buffer c ! (?n - 1)"
    using pos by (simp add: slice_def)
  with assms(5) have foot: "slice (buffer c) 0 ?n ! (?n - 1) \<noteq> FOOTER"
    by simp
  show ?thesis
    by (subst parseResponses.simps) (use assms(1,4) start len3 foot in \<open>simp add: Let_def\<close>)
qed


theorem C4_bad_footer_consumed_witness:
  "MIN_PACKET_SIZE \<le> length [0xFE, 0xFE, 0x02, 0x20, 0x00, 0xFE, 0xFE, 0x02, 0x20, 0xFA :: byte]
   \<and> [0xFE, 0xFE, 0x02, 0x20, 0x00, 0xFE, 0xFE, 0x02, 0x20, 0xFA] ! 0 = HEADER
   \<and> [0xFE, 0xFE, 0x02, 0x20, 0x00, 0xFE, 0xFE, 0x02, 0x20, 0xFA] ! 1 = HEADER
   \<and> HEADER_SIZE + LENGTH_SIZE + unat ([0xFE, 0xFE, 0x02, 0x20, 0x00, 0xFE, 0xFE, 0x02, 0x20, 0xFA :: byte] ! 2) = 5
   \<and> [0xFE, 0xFE, 0x02, 0x20, 0x00, 0xFE, 0xFE, 0x02, 0x20, 0xFA] ! 4 \<noteq> FOOTER
   \<and> parseResponses (newController\<lparr>buffer := [0xFE, 0xFE, 0x02, 0x20, 0x00, 0xFE, 0xFE, 0x02, 0x20, 0xFA]\<rparr>)
       = parseResponses (newController\<lparr>buffer := [0xFE, 0xFE, 0x02, 0x20, 0xFA]\<rparr>)"
proof -
  let ?b = "[0xFE, 0xFE, 0x02, 0x20, 0x00, 0xFE, 0xFE, 0x02, 0x20, 0xFA :: byte]"
  let ?c = "newController\<lparr>buffer := ?b\<rparr>"
  have n: "HEADER_SIZE + LENGTH_SIZE + unat (?b ! 2) = 5"
    by (simp add: PROTOCOL_defs)
  have b: "buffer ?c = ?b" by simp
  have h: "MIN_PACKET_SIZE \<le> length ?b" "?b ! 0 = HEADER" "?b ! 1 = HEADER" "?b ! 4 \<noteq> FOOTER"
    by (simp_all add: PROTOCOL_defs)
  have "parseResponses ?c
          = parseResponses (?c\<lparr>buffer := drop (HEADER_SIZE + LENGTH_SIZE + unat (buffer ?c ! 2)) (buffer ?c)\<rparr>)"
    using h by (intro C4_bad_footer_consumed) (simp_all only: b n, simp_all)
  then have "parseResponses ?c = parseResponses (newController\<lparr>buffer := [0xFE, 0xFE, 0x02, 0x20, 0xFA]\<rparr>)"
    unfolding b n by simp
  with h n show ?thesis by blast
qed

text \<open>
  C4 as stated fails below five bytes: the buffer \<open>FE FE 01 00\<close> begins with two header
  bytes, holds the four bytes its length byte announces, and its last byte is not the
  footer; the loop of \<open>_parseResponses\<close> is not entered and nothing is removed.
\<close>

theorem C4_counterexample:
  "buffer (newController\<lparr>buffer := [0xFE, 0xFE, 0x01, 0x00]\<rparr>) ! 0 = HEADER
   \<and> buffer (newController\<lparr>buffer := [0xFE, 0xFE, 0x01, 0x00]\<rparr>) ! 1 = HEADER
   \<and> HEADER_SIZE + LENGTH_SIZE + unat (buffer (newController\<lparr>buffer := [0xFE, 0xFE, 0x01, 0x00]\<rparr>) ! 2) = 4
   \<and> length (buffer (newController\<lparr>buffer := [0xFE, 0xFE, 0x01, 0x00]\<rparr>)) = 4
   \<and> buffer (newController\<lparr>buffer := [0xFE, 0xFE, 0x01, 0x00]\<rparr>) ! (4 - 1) \<noteq> FOOTER
   \<and> parseResponses (newController\<lparr>buffer := [0xFE, 0xFE, 0x01, 0x00]\<rparr>)
        = (None, newController\<lparr>buffer := [0xFE, 0xFE, 0x01, 0x00]\<rparr>)
   \<and> parseResponses (newController\<lparr>buffer := [0xFE, 0xFE, 0x01, 0x00]\<rparr>)
        \<noteq> parseResponses (newController\<lparr>buffer := drop 4 [0xFE, 0xFE, 0x01, 0x00]\<rparr>)"
  by code_simp

subsection \<open>Lists, the queue and the timers\<close>

lemma find_split:
  "find P xs = Some x \<Longrightarrow> \<exists>pre post. xs = pre @ x # post \<and> P x \<and> (\<forall>y \<in> set pre. \<not> P y)"
proof (induction xs)
  case Nil
  then show ?case by simp
next
  case (Cons a xs)
  show ?case
  proof (cases "P a")
    case True
    with Cons.prems have "a = x" by simp
    with True show ?thesis by (intro exI [of _ "[]"] exI [of _ xs]) simp
  next
    case False
    with Cons obtain pre post where "xs = pre @ x # post" "P x" "\<forall>y \<in> set pre. \<not> P y"
      by auto
    with False show ?thesis
      by (intro exI [of _ "a # pre"] exI [of _ post]) simp
  qed
qed

lemma find_first:
  "(\<forall>y \<in> set pre. \<not> P y) \<Longrightarrow> P x \<Longrightarrow> find P (pre @ x # post) = Some x"
  by (induction pre) auto

lemma find_None: "find P xs = None \<longleftrightarrow> (\<forall>y \<in> set xs. \<not> P y)"
  by (induction xs) auto

lemma findIndex_first:
  "(\<forall>y \<in> set pre. \<not> P y) \<Longrightarrow> P x \<Longrightarrow> findIndex P (pre @ x # post) = Some (length pre)"
  by (induction pre) auto

lemma findIndex_None: "findIndex P xs = None \<longleftrightarrow> (\<forall>y \<in> set xs. \<not> P y)"
  by (induction xs) (auto split: option.splits)

lemma findIndex_split:
  "findIndex P xs = Some i \<Longrightarrow>
     \<exists>pre x post. xs = pre @ x # post \<and> P x \<and> (\<forall>y \<in> set pre. \<not> P y) \<and> i = length pre"
proof (induction xs arbitrary: i)
  case Nil
  then show ?case by simp
next
  case (Cons a xs)
  show ?case
  proof (cases "P a")
    case True
    with Cons.prems have "i = 0" by simp
    with True show ?thesis
      by (intro exI [of _ "[]"] exI [of _ a] exI [of _ xs]) simp
  next
    case False
    with Cons.prems obtain j where j: "findIndex P xs = Some j" "i = Suc j"
      by (auto split: option.splits)
    from Cons.IH [OF j(1)] obtain pre x post
      where "xs = pre @ x # post" "P x" "\<forall>y \<in> set pre. \<not> P y" "j = length pre"
      by auto
    with False j(2) show ?thesis
      by (intro exI [of _ "a # pre"] exI [of _ x] exI [of _ post]) simp
  qed
qed

lemma splice1_split: "splice1 (length pre) (pre @ x # post) = pre @ post"
  by (simp add: splice1_def)

lemma earliest_None: "earliest ts = None \<longleftrightarrow> ts = []"
  by (cases ts) (auto split: option.splits)

lemma earliest_split:
  "earliest ts = Some t \<Longrightarrow>
     \<exists>pre post. ts = pre @ t # post \<and> (\<forall>u \<in> set pre. expiry t < expiry u)
                \<and> (\<forall>u \<in> set post. expiry t \<le> expiry u)"
proof (induction ts arbitrary: t)
  case Nil
  then show ?case by simp
next
  case (Cons a ts)
  show ?case
  proof (cases "earliest ts")
    case None
    then have "ts = []" by (simp add: earliest_None)
    with Cons.prems show ?thesis
      by (intro exI [of _ "[]"] exI [of _ "[]"]) simp
  next
    case (Some u)
    from Cons.IH [OF Some] obtain pre post
      where sp: "ts = pre @ u # post" "\<forall>w \<in> set pre. expiry u < expiry w"
        "\<forall>w \<in> set post. expiry u \<le> expiry w"
      by auto
    show ?thesis
    proof (cases "expiry u < expiry a")
      case True
      with Some Cons.prems have "t = u" by simp
      with sp True show ?thesis
        by (intro exI [of _ "a # pre"] exI [of _ post]) simp
    next
      case False
      with Some Cons.prems have "t = a" by simp
      moreover have "\<forall>w \<in> set ts. expiry a \<le> expiry w"
        using sp False by (auto simp: not_less intro: order_trans less_imp_le)
      ultimately show ?thesis
        by (intro exI [of _ "[]"] exI [of _ ts]) simp
    qed
  qed
qed


lemma handleResponse_no_match:
  assumes "\<forall>x \<in> set (responseQueue c). command x \<noteq> commandId"
  shows "handleResponse commandId data c = (None, c)"
proof -
  have "find (\<lambda>item. command item = commandId) (responseQueue c) = None"
    using assms by (simp add: find_None)
  then show ?thesis by (simp add: handleResponse_def)
qed

lemma handleResponse_match:
  assumes q: "responseQueue c = pre @ item # post"
    and pre: "\<forall>y \<in> set pre. command y \<noteq> commandId" and item: "command item = commandId"
  shows "handleResponse commandId data c =
     (case decodeData commandId data of
        Inl e \<Rightarrow> (Some e, c\<lparr>responseQueue := pre @ post\<rparr>)
      | Inr v \<Rightarrow> (None, settle (call item) (Resolved v)
                         (clearTimeout (call item) (c\<lparr>responseQueue := pre @ post\<rparr>))))"
proof -
  have f: "find (\<lambda>x. command x = commandId) (responseQueue c) = Some item"
    unfolding q using pre item by (intro find_first) auto
  have "\<forall>y \<in> set pre. \<not> (y = item)" using pre item by auto
  then have "indexOf item (responseQueue c) = Some (length pre)"
    unfolding indexOf_def q by (intro findIndex_first) auto
  with f q show ?thesis
    by (simp add: handleResponse_def Let_def splice1_split)
qed

subsection \<open>What every sequence of events preserves\<close>

lemma consistent_new: "consistent newController"
  by (simp add: consistent_def newController_def)

lemma consistent_buffer [simp]: "consistent (c\<lparr>buffer := b\<rparr>) = consistent c"
  by (simp add: consistent_def)

lemma consistent_isConnected [simp]: "consistent (c\<lparr>isConnected := b\<rparr>) = consistent c"
  by (simp add: consistent_def)

lemma consistent_port [simp]: "consistent (c\<lparr>port := b\<rparr>) = consistent c"
  by (simp add: consistent_def)

lemma consistent_timer_of:
  "consistent c \<Longrightarrow> item \<in> set (responseQueue c) \<Longrightarrow>
     \<exists>t \<in> set (timers c). owner t = call item \<and> timerCommand t = command item"
  by (simp add: consistent_def)

lemma consistent_timer:
  "consistent c \<Longrightarrow> t \<in> set (timers c) \<Longrightarrow>
     owner t < calls c \<and> owner t \<notin> fst ` set (settled c)
     \<and> expiry t \<le> clock c + getCommandTimeout (timerCommand t)"
  by (simp add: consistent_def)

lemma consistent_order:
  "consistent c \<Longrightarrow> t \<in> set (timers c) \<Longrightarrow> u \<in> set (timers c) \<Longrightarrow>
     owner t < owner u \<Longrightarrow> timerCommand t = timerCommand u \<Longrightarrow> expiry t \<le> expiry u"
  by (simp add: consistent_def)

lemma consistent_sorted:
  "consistent c \<Longrightarrow> sorted_wrt (<) (map call (responseQueue c)) \<and> sorted_wrt (<) (map owner (timers c))"
  by (simp add: consistent_def)

lemma consistent_pending:
  "consistent c \<Longrightarrow> k < calls c \<Longrightarrow> k \<in> fst ` set (settled c) \<or> k \<in> owner ` set (timers c)"
  by (simp add: consistent_def)

lemma consistent_settled:
  "consistent c \<Longrightarrow> fst ` set (settled c) \<subseteq> {..< calls c}"
  by (simp add: consistent_def)

lemma owner_unique:
  assumes "sorted_wrt (<) (map owner ts)" "t \<in> set ts" "u \<in> set ts" "owner t = owner u"
  shows "t = u"
proof -
  from assms(1) have "distinct (map owner ts)"
    by (simp add: strict_sorted_iff)
  then have "inj_on owner (set ts)" by (simp add: distinct_map)
  with assms(2,3,4) show ?thesis by (auto dest: inj_onD)
qed

lemma sorted_owner_filter:
  "sorted_wrt (<) (map owner ts) \<Longrightarrow> sorted_wrt (<) (map owner (filter P ts))"
  by (induction ts) auto

lemma consistent_settle_remove:
  assumes c: "consistent c" and t: "t \<in> set (timers c)"
    and sub: "set q' \<subseteq> set (responseQueue c)" and srt: "sorted_wrt (<) (map call q')"
    and gone: "\<forall>x \<in> set q'. call x \<noteq> owner t"
  shows "consistent (settle (owner t) r (clearTimeout (owner t) (c\<lparr>responseQueue := q'\<rparr>)))"
proof -
  let ?k = "owner t"
  let ?ts = "filter (\<lambda>u. owner u \<noteq> ?k) (timers c)"
  from consistent_timer [OF c t] have fresh: "?k \<notin> fst ` set (settled c)" and small: "?k < calls c"
    by simp_all
  have eq: "settle ?k r (clearTimeout ?k (c\<lparr>responseQueue := q'\<rparr>))
      = c\<lparr>responseQueue := q', timers := ?ts, settled := settled c @ [(?k, r)]\<rparr>"
    using fresh by (simp add: settle_def clearTimeout_def)
  have 1: "sorted_wrt (<) (map owner ?ts)"
    using c by (simp add: consistent_def sorted_owner_filter)
  have 2: "\<forall>item \<in> set q'. \<exists>u \<in> set ?ts. owner u = call item \<and> timerCommand u = command item"
  proof
    fix item assume i: "item \<in> set q'"
    with sub have "item \<in> set (responseQueue c)" by auto
    from consistent_timer_of [OF c this]
    obtain u where "u \<in> set (timers c)" "owner u = call item" "timerCommand u = command item"
      by blast
    moreover from i gone have "call item \<noteq> ?k" by simp
    ultimately show "\<exists>u \<in> set ?ts. owner u = call item \<and> timerCommand u = command item"
      by auto
  qed
  have 3: "\<forall>u \<in> set ?ts. owner u < calls c \<and> owner u \<notin> fst ` set (settled c @ [(?k, r)])
         \<and> expiry u \<le> clock c + getCommandTimeout (timerCommand u)"
    using consistent_timer [OF c] by auto
  have 4: "\<forall>u \<in> set ?ts. \<forall>w \<in> set ?ts.
           owner u < owner w \<and> timerCommand u = timerCommand w \<longrightarrow> expiry u \<le> expiry w"
    using consistent_order [OF c] by auto
  have 5: "\<forall>j < calls c. j \<in> fst ` set (settled c @ [(?k, r)]) \<or> j \<in> owner ` set ?ts"
  proof (intro allI impI)
    fix j assume j: "j < calls c"
    show "j \<in> fst ` set (settled c @ [(?k, r)]) \<or> j \<in> owner ` set ?ts"
    proof (cases "j = ?k")
      case True
      then show ?thesis by simp
    next
      case False
      from consistent_pending [OF c j] have "j \<in> fst ` set (settled c) \<or> j \<in> owner ` set (timers c)" .
      with False show ?thesis by auto
    qed
  qed
  have 6: "fst ` set (settled c @ [(?k, r)]) \<subseteq> {..< calls c}"
    using consistent_settled [OF c] small by auto
  show ?thesis
    unfolding eq consistent_def using srt 1 2 3 4 5 6 by simp
qed

lemma consistent_queue_remove:
  assumes "consistent c" "responseQueue c = pre @ item # post"
  shows "consistent (c\<lparr>responseQueue := pre @ post\<rparr>)"
  using assms by (auto simp: consistent_def sorted_wrt_append)

lemma consistent_handleResponse:
  assumes c: "consistent c"
  shows "consistent (snd (handleResponse commandId data c))"
proof (cases "find (\<lambda>item. command item = commandId) (responseQueue c)")
  case None
  then have "\<forall>x \<in> set (responseQueue c). command x \<noteq> commandId"
    by (simp add: find_None)
  then show ?thesis using c by (simp add: handleResponse_no_match)
next
  case (Some item)
  from find_split [OF Some] obtain pre post
    where q: "responseQueue c = pre @ item # post" "command item = commandId"
      "\<forall>y \<in> set pre. command y \<noteq> commandId"
    by auto
  from q(1) have "item \<in> set (responseQueue c)" by simp
  from consistent_timer_of [OF c this] obtain t where t: "t \<in> set (timers c)" "owner t = call item"
    by blast
  from consistent_sorted [OF c] q(1) have srt: "sorted_wrt (<) (map call (pre @ post))"
    and gone: "\<forall>x \<in> set (pre @ post). call x \<noteq> call item"
    by (auto simp: sorted_wrt_append)
  have "consistent (settle (owner t) r (clearTimeout (owner t) (c\<lparr>responseQueue := pre @ post\<rparr>)))" for r
    using c t(1) q(1) srt gone unfolding t(2) [symmetric]
    by (intro consistent_settle_remove) auto
  then show ?thesis
    using consistent_queue_remove [OF c q(1)] t(2)
    by (simp add: handleResponse_match [OF q(1) q(3) q(2)] split: sum.splits)
qed

lemma consistent_parseResponses:
  "consistent c \<Longrightarrow> consistent (snd (parseResponses c))"
proof (induction c rule: parseResponses.induct)
  case (1 c)
  show ?case
  proof (cases "MIN_PACKET_SIZE \<le> length (buffer c)")
    case False
    then show ?thesis using "1.prems" by (subst parseResponses.simps) simp
  next
    case long: True
    show ?thesis
    proof (cases "findStart 0 (buffer c)")
      case None
      then show ?thesis using "1.prems" long by (subst parseResponses.simps) simp
    next
      case (Some startIndex)
      define b where "b = (if 0 < startIndex then drop startIndex (buffer c) else buffer c)"
      define packetLength where "packetLength = HEADER_SIZE + LENGTH_SIZE + unat (b ! 2)"
      define packet where "packet = slice b 0 packetLength"
      show ?thesis
      proof (cases "length b < 3 \<or> length b < packetLength")
        case True
        then show ?thesis using "1.prems" long Some
          by (subst parseResponses.simps) (auto simp: Let_def b_def packetLength_def)
      next
        case False
        then have nb: "\<not> length b < 3" "\<not> length b < packetLength" by auto
        show ?thesis
        proof (cases "packet ! (packetLength - 1) = FOOTER")
          case bad: False
          have "consistent (snd (parseResponses (c\<lparr>buffer := drop packetLength b\<rparr>)))"
            using "1.prems" bad
            by (intro "1.IH"(2) [OF long Some b_def nb(1) packetLength_def nb(2) packet_def]) simp_all
          then show ?thesis using long Some nb bad
            by (subst parseResponses.simps)
               (simp add: Let_def b_def [symmetric] packetLength_def [symmetric] packet_def [symmetric])
        next
          case good: True
          obtain e c' where h: "handleResponse (packet ! 3) (slice packet 4 (packetLength - 1)) (c\<lparr>buffer := b\<rparr>) = (e, c')"
            by (cases "handleResponse (packet ! 3) (slice packet 4 (packetLength - 1)) (c\<lparr>buffer := b\<rparr>)")
          have c': "consistent c'"
            using consistent_handleResponse [of "c\<lparr>buffer := b\<rparr>" "packet ! 3" "slice packet 4 (packetLength - 1)"]
              "1.prems" h by simp
          show ?thesis
          proof (cases e)
            case (Some err)
            then show ?thesis using long \<open>findStart 0 (buffer c) = Some startIndex\<close> nb good h c'
              by (subst parseResponses.simps)
                 (simp add: Let_def b_def [symmetric] packetLength_def [symmetric] packet_def [symmetric])
          next
            case None
            have "consistent (snd (parseResponses (c'\<lparr>buffer := drop packetLength b\<rparr>)))"
              using c' None h
              by (intro "1.IH"(1) [OF long \<open>findStart 0 (buffer c) = Some startIndex\<close> b_def nb(1)
                    packetLength_def nb(2) packet_def good h [symmetric]]) simp_all
            then show ?thesis using long \<open>findStart 0 (buffer c) = Some startIndex\<close> nb good h None
              by (subst parseResponses.simps)
                 (simp add: Let_def b_def [symmetric] packetLength_def [symmetric] packet_def [symmetric])
          qed
        qed
      qed
    qed
  qed
qed

lemma consistent_queue_calls:
  assumes "consistent c" "item \<in> set (responseQueue c)"
  shows "call item < calls c"
proof -
  from consistent_timer_of [OF assms] obtain t where "t \<in> set (timers c)" "owner t = call item"
    by blast
  with consistent_timer [OF assms(1), of t] show ?thesis by simp
qed

lemma consistent_register:
  assumes c: "consistent c"
  shows "consistent (c\<lparr>port := p, calls := calls c + 1,
            timers := timers c @ [\<lparr>owner = calls c, timerCommand = commandId,
                                   expiry = clock c + getCommandTimeout commandId\<rparr>],
            responseQueue := responseQueue c @ [\<lparr>command = commandId, call = calls c\<rparr>]\<rparr>)"
proof -
  let ?t = "\<lparr>owner = calls c, timerCommand = commandId, expiry = clock c + getCommandTimeout commandId\<rparr>"
  let ?i = "\<lparr>command = commandId, call = calls c\<rparr>"
  have 1: "sorted_wrt (<) (map call (responseQueue c @ [?i]))"
    using consistent_sorted [OF c] consistent_queue_calls [OF c]
    by (auto simp: sorted_wrt_append)
  have 2: "sorted_wrt (<) (map owner (timers c @ [?t]))"
    using consistent_sorted [OF c] consistent_timer [OF c]
    by (auto simp: sorted_wrt_append)
  have 3: "\<forall>item \<in> set (responseQueue c @ [?i]).
             \<exists>t \<in> set (timers c @ [?t]). owner t = call item \<and> timerCommand t = command item"
    using consistent_timer_of [OF c] by auto
  have 4: "\<forall>t \<in> set (timers c @ [?t]). owner t < calls c + 1 \<and> owner t \<notin> fst ` set (settled c)
             \<and> expiry t \<le> clock c + getCommandTimeout (timerCommand t)"
    using consistent_timer [OF c] consistent_settled [OF c] by (auto simp: less_Suc_eq)
  have 5: "\<forall>t \<in> set (timers c @ [?t]). \<forall>u \<in> set (timers c @ [?t]).
             owner t < owner u \<and> timerCommand t = timerCommand u \<longrightarrow> expiry t \<le> expiry u"
  proof (intro ballI impI)
    fix t u assume t: "t \<in> set (timers c @ [?t])" and u: "u \<in> set (timers c @ [?t])"
      and lt: "owner t < owner u \<and> timerCommand t = timerCommand u"
    show "expiry t \<le> expiry u"
    proof (cases "u = ?t")
      case True
      with lt have "owner t \<noteq> owner ?t" by simp
      then have "t \<noteq> ?t" by blast
      with t have "t \<in> set (timers c)" by simp
      from consistent_timer [OF c this] lt True show ?thesis by simp
    next
      case False
      with u have u': "u \<in> set (timers c)" by simp
      from consistent_timer [OF c u'] lt have "owner t \<noteq> owner ?t" by simp
      then have "t \<noteq> ?t" by blast
      with t have "t \<in> set (timers c)" by simp
      from consistent_order [OF c this u'] lt show ?thesis by simp
    qed
  qed
  have 6: "\<forall>k < calls c + 1. k \<in> fst ` set (settled c) \<or> k \<in> owner ` set (timers c @ [?t])"
    using consistent_pending [OF c] by (auto simp: less_Suc_eq)
  have 7: "fst ` set (settled c) \<subseteq> {..< calls c + 1}"
    using consistent_settled [OF c] by auto
  show ?thesis
    unfolding consistent_def using 1 2 3 4 5 6 7 by simp
qed

lemma consistent_sendCommand:
  assumes "consistent c"
  shows "consistent (snd (sendCommand commandId data waitForResponse c))"
  using assms consistent_register [OF assms, where commandId = commandId]
  by (auto simp: sendCommand_def Let_def split: option.splits sum.splits)

lemma consistent_clock:
  assumes "consistent c"
  shows "consistent (c\<lparr>clock := clock c + ms\<rparr>)"
  using assms by (auto simp: consistent_def intro: trans_le_add1)

lemma settle_fields [simp]:
  "responseQueue (settle k r c) = responseQueue c"
  "timers (settle k r c) = timers c"
  "buffer (settle k r c) = buffer c"
  "port (settle k r c) = port c"
  "clock (settle k r c) = clock c"
  "calls (settle k r c) = calls c"
  "isConnected (settle k r c) = isConnected c"
  by (simp_all add: settle_def)

lemma clearTimeout_fields [simp]:
  "responseQueue (clearTimeout k c) = responseQueue c"
  "settled (clearTimeout k c) = settled c"
  "calls (clearTimeout k c) = calls c"
  "clock (clearTimeout k c) = clock c"
  by (simp_all add: clearTimeout_def)

lemma clearTimeout_queue:
  "(clearTimeout k c)\<lparr>responseQueue := q\<rparr> = clearTimeout k (c\<lparr>responseQueue := q\<rparr>)"
  by (cases c) (simp add: clearTimeout_def)

text \<open>When the timer that runs next belongs to a call still in the queue, that call is the first of its command id.\<close>

lemma timeout_removes_own_entry:
  assumes c: "consistent c" and e: "earliest (timers c) = Some t"
  shows "\<exists>q'. responseQueue (timeoutCallback t (clearTimeout (owner t) c)) = q'
            \<and> set q' \<subseteq> set (responseQueue c) \<and> sorted_wrt (<) (map call q')
            \<and> (\<forall>x \<in> set q'. call x \<noteq> owner t)
            \<and> timeoutCallback t (clearTimeout (owner t) c)
                = settle (owner t) (Rejected (CommandTimeout (timerCommand t)))
                    (clearTimeout (owner t) (c\<lparr>responseQueue := q'\<rparr>))"
proof -
  from earliest_split [OF e] obtain tpre tpost
    where ts: "timers c = tpre @ t # tpost" "\<forall>u \<in> set tpre. expiry t < expiry u"
    by auto
  then have t: "t \<in> set (timers c)" by simp
  have srt: "sorted_wrt (<) (map owner (timers c))" "sorted_wrt (<) (map call (responseQueue c))"
    using consistent_sorted [OF c] by simp_all
  have mine: "command x = timerCommand t" if "x \<in> set (responseQueue c)" "call x = owner t" for x
  proof -
    from consistent_timer_of [OF c that(1)] obtain u
      where u: "u \<in> set (timers c)" "owner u = call x" "timerCommand u = command x" by blast
    have "u = t" using owner_unique [OF srt(1) u(1) t] u(2) that(2) by simp
    with u(3) show ?thesis by simp
  qed
  have before: "owner u < owner t \<Longrightarrow> u \<in> set (timers c) \<Longrightarrow> timerCommand u \<noteq> timerCommand t" for u
  proof
    assume u: "owner u < owner t" "u \<in> set (timers c)" "timerCommand u = timerCommand t"
    from srt(1) ts(1) u(1,2) have "u \<in> set tpre"
      by (auto simp: sorted_wrt_append)
    with ts(2) have "expiry t < expiry u" by simp
    moreover from consistent_order [OF c u(2) t u(1) u(3)] have "expiry u \<le> expiry t" .
    ultimately show False by simp
  qed
  show ?thesis
  proof (cases "findIndex (\<lambda>item. command item = timerCommand t) (responseQueue c)")
    case None
    then have "\<forall>x \<in> set (responseQueue c). command x \<noteq> timerCommand t"
      by (simp add: findIndex_None)
    with mine have "\<forall>x \<in> set (responseQueue c). call x \<noteq> owner t" by auto
    with None srt(2) show ?thesis
      by (intro exI [of _ "responseQueue c"]) (simp add: timeoutCallback_def)
  next
    case (Some i)
    from findIndex_split [OF Some] obtain pre x post
      where q: "responseQueue c = pre @ x # post" "command x = timerCommand t"
        "\<forall>y \<in> set pre. command y \<noteq> timerCommand t" "i = length pre"
      by auto
    have "call y \<noteq> owner t" if y: "y \<in> set (pre @ post)" for y
    proof
      assume k: "call y = owner t"
      from y q(1) have yq: "y \<in> set (responseQueue c)" by auto
      from mine [OF yq k] q(3) y have "y \<in> set post" by auto
      with srt(2) q(1) have "call x < call y" by (auto simp: sorted_wrt_append)
      moreover from q(1) have "x \<in> set (responseQueue c)" by simp
      from consistent_timer_of [OF c this] obtain u
        where u: "u \<in> set (timers c)" "owner u = call x" "timerCommand u = command x" by blast
      ultimately show False using before [of u] k q(2) by simp
    qed
    moreover have "sorted_wrt (<) (map call (pre @ post))"
      using srt(2) q(1) by (auto simp: sorted_wrt_append)
    moreover have "set (pre @ post) \<subseteq> set (responseQueue c)"
      using q(1) by auto
    ultimately show ?thesis using Some q(1,4)
      by (intro exI [of _ "pre @ post"]) (simp add: timeoutCallback_def clearTimeout_queue splice1_split)
  qed
qed

lemma consistent_fireTimer:
  assumes c: "consistent c"
  shows "consistent (fireTimer c)"
proof (cases "earliest (timers c)")
  case None
  then show ?thesis using c by (simp add: fireTimer_def)
next
  case (Some t)
  from earliest_split [OF Some] have t: "t \<in> set (timers c)" by auto
  from timeout_removes_own_entry [OF c Some] obtain q'
    where q': "set q' \<subseteq> set (responseQueue c)" "sorted_wrt (<) (map call q')"
      "\<forall>x \<in> set q'. call x \<noteq> owner t"
      "timeoutCallback t (clearTimeout (owner t) c)
         = settle (owner t) (Rejected (CommandTimeout (timerCommand t)))
             (clearTimeout (owner t) (c\<lparr>responseQueue := q'\<rparr>))"
    by blast
  have "consistent (timeoutCallback t (clearTimeout (owner t) c))"
    unfolding q'(4) using c t q'(1,2,3) by (rule consistent_settle_remove)
  with Some c show ?thesis by (simp add: fireTimer_def)
qed

lemma consistent_step: "consistent c \<Longrightarrow> consistent (step c ev)"
  by (cases ev)
     (simp_all add: consistent_parseResponses consistent_sendCommand consistent_clock consistent_fireTimer)

lemma consistent_foldl: "consistent c \<Longrightarrow> consistent (foldl step c events)"
  by (induction events arbitrary: c) (simp_all add: consistent_step)

lemma consistent_run: "consistent (run events)"
  by (simp add: run_def consistent_foldl consistent_new)

subsection \<open>Correlation of responses\<close>

text \<open>
  What \<open>_handleResponse\<close> does with a frame whose payload \<open>_decodeData\<close> decodes, in a
  controller reached by any sequence of events: if an entry of the queue has the command
  id of the frame, it takes the first such entry out of the queue and resolves its call
  with the decoded value, and no entry with that command id belongs to an earlier call.
\<close>

lemma handleResponse_decodable:
  assumes "find (\<lambda>item. command item = commandId) (responseQueue (run events)) = Some item"
    and "decodeData commandId payload = Inr v"
  shows "\<exists>c'. handleResponse commandId payload (run events) = (None, c')
            \<and> settled c' = settled (run events) @ [(call item, Resolved v)]
            \<and> responseQueue c' = remove1 item (responseQueue (run events))
            \<and> (\<forall>x \<in> set (responseQueue (run events)).
                  command x = commandId \<longrightarrow> call item \<le> call x)"
proof -
  let ?c = "run events"
  have c: "consistent ?c" by (rule consistent_run)
  note f = assms(1) and d = assms(2)
  from find_split [OF f] obtain pre post
    where q: "responseQueue ?c = pre @ item # post" "command item = commandId"
      "\<forall>y \<in> set pre. command y \<noteq> commandId"
    by auto
  from q(1) have "item \<in> set (responseQueue ?c)" by simp
  from consistent_timer_of [OF c this] obtain t where t: "t \<in> set (timers ?c)" "owner t = call item"
    by blast
  with consistent_timer [OF c t(1)] have fresh: "call item \<notin> fst ` set (settled ?c)" by simp
  let ?c' = "settle (call item) (Resolved v) (clearTimeout (call item) (?c\<lparr>responseQueue := pre @ post\<rparr>))"
  have 1: "handleResponse commandId payload ?c = (None, ?c')"
    using d by (simp add: handleResponse_match [OF q(1) q(3) q(2)])
  have 2: "settled ?c' = settled ?c @ [(call item, Resolved v)]"
    using fresh by (simp add: settle_def)
  have "item \<notin> set pre" using q(2,3) by auto
  then have 3: "responseQueue ?c' = remove1 item (responseQueue ?c)"
    by (simp add: q(1) remove1_append)
  have 4: "\<forall>x \<in> set (responseQueue ?c). command x = commandId \<longrightarrow> call item \<le> call x"
    using consistent_sorted [OF c] q by (auto simp: sorted_wrt_append less_imp_le)
  from 1 2 3 4 show ?thesis by blast
qed

text \<open>
  C2 at a frame that \<open>_decodeData\<close> cannot decode (C9). \<open>_handleResponse\<close> takes the
  matching entry out of the queue before it decodes, and nothing catches what the decoder
  throws. With one call of \<open>GET_ANGLES\<close> pending, a \<open>GET_ANGLES\<close> frame with a payload of
  one byte takes the call's entry out of the queue, and the \<open>RangeError\<close> leaves
  \<open>_handleResponse\<close> before the call is resolved: through the \<open>data\<close> handler, the queue
  is empty afterwards, no call is settled, and the frame is still in the buffer. With two
  calls of \<open>GET_ANGLES\<close> pending and a well-formed response behind the first one, the frame
  left in the buffer is parsed again and takes the entry of the second call as well:
  neither call is resolved by the two responses, and both are rejected by their timeouts.
  The timeout of a call that lost its entry is still set: when it fires it takes the first
  entry with its command id out of the queue, here that of a call made 400 ms later,
  whose well-formed response then finds no entry and whose promise is rejected by its own
  timeout.
\<close>

theorem C2_undecodable_response:
  "find (\<lambda>item. command item = GET_ANGLES) (responseQueue (run [PortOpen, Send GET_ANGLES None True]))
     = Some \<lparr>command = GET_ANGLES, call = 0\<rparr>
   \<and> handleResponse GET_ANGLES [0x04] (run [PortOpen, Send GET_ANGLES None True])
     = (Some RangeError, (run [PortOpen, Send GET_ANGLES None True])\<lparr>responseQueue := []\<rparr>)
   \<and> settled (snd (handleResponse GET_ANGLES [0x04] (run [PortOpen, Send GET_ANGLES None True]))) = []
   \<and> run [PortOpen, Send GET_ANGLES None True, PortData [0xFE, 0xFE, 0x03, 0x20, 0x04, 0xFA]]
     = \<lparr>isConnected = True, port = Some [[0xFE, 0xFE, 0x02, 0x20, 0xFA]],
        buffer = [0xFE, 0xFE, 0x03, 0x20, 0x04, 0xFA], responseQueue = [],
        clock = 0, timers = [\<lparr>owner = 0, timerCommand = GET_ANGLES, expiry = 500\<rparr>],
        settled = [], calls = 1\<rparr>
   \<and> responseQueue (run [PortOpen, Send GET_ANGLES None True, Send GET_ANGLES None True])
     = [\<lparr>command = GET_ANGLES, call = 0\<rparr>, \<lparr>command = GET_ANGLES, call = 1\<rparr>]
   \<and> decodeData GET_ANGLES [0x04, 0xD2, 0, 0, 0, 0, 0, 0, 0, 0, 0, 0]
     = Inr (RVector [Num 12.34, Num 0, Num 0, Num 0, Num 0, Num 0])
   \<and> run [PortOpen, Send GET_ANGLES None True, Send GET_ANGLES None True,
          PortData [0xFE, 0xFE, 0x03, 0x20, 0x04, 0xFA],
          PortData [0xFE, 0xFE, 0x0E, 0x20, 0x04, 0xD2, 0, 0, 0, 0, 0, 0, 0, 0, 0, 0, 0xFA]]
     = \<lparr>isConnected = True,
        port = Some [[0xFE, 0xFE, 0x02, 0x20, 0xFA], [0xFE, 0xFE, 0x02, 0x20, 0xFA]],
        buffer = [0xFE, 0xFE, 0x03, 0x20, 0x04, 0xFA,
                  0xFE, 0xFE, 0x0E, 0x20, 0x04, 0xD2, 0, 0, 0, 0, 0, 0, 0, 0, 0, 0, 0xFA],
        responseQueue = [],
        clock = 0,
        timers = [\<lparr>owner = 0, timerCommand = GET_ANGLES, expiry = 500\<rparr>,
                  \<lparr>owner = 1, timerCommand = GET_ANGLES, expiry = 500\<rparr>],
        settled = [], calls = 2\<rparr>
   \<and> settled (run [PortOpen, Send GET_ANGLES None True, Send GET_ANGLES None True,
          PortData [0xFE, 0xFE, 0x03, 0x20, 0x04, 0xFA],
          PortData [0xFE, 0xFE, 0x0E, 0x20, 0x04, 0xD2, 0, 0, 0, 0, 0, 0, 0, 0, 0, 0, 0xFA],
          Elapse 500, RunTimer, RunTimer])
     = [(0, Rejected (CommandTimeout GET_ANGLES)), (1, Rejected (CommandTimeout GET_ANGLES))]
   \<and> run [PortOpen, Send GET_ANGLES None True,
          PortData [0xFE, 0xFE, 0x03, 0x20, 0x04, 0xFA],
          Elapse 400, Send GET_ANGLES None True, Elapse 100, RunTimer]
     = \<lparr>isConnected = True,
        port = Some [[0xFE, 0xFE, 0x02, 0x20, 0xFA], [0xFE, 0xFE, 0x02, 0x20, 0xFA]],
        buffer = [0xFE, 0xFE, 0x03, 0x20, 0x04, 0xFA],
        responseQueue = [],
        clock = 500,
        timers = [\<lparr>owner = 1, timerCommand = GET_ANGLES, expiry = 900\<rparr>],
        settled = [(0, Rejected (CommandTimeout GET_ANGLES))], calls = 2\<rparr>
   \<and> settled (run [PortOpen, Send GET_ANGLES None True,
          PortData [0xFE, 0xFE, 0x03, 0x20, 0x04, 0xFA],
          Elapse 400, Send GET_ANGLES None True, Elapse 100, RunTimer,
          PortData [0xFE, 0xFE, 0x0E, 0x20, 0x04, 0xD2, 0, 0, 0, 0, 0, 0, 0, 0, 0, 0, 0xFA],
          Elapse 400, RunTimer])
     = [(0, Rejected (CommandTimeout GET_ANGLES)), (1, Rejected (CommandTimeout GET_ANGLES))]"
  by code_simp

subsection \<open>Timeouts and late responses\<close>

text \<open>
  C3. A call of \<open>_sendCommand\<close> that waits for a response enters the queue and sets a
  timer due after the timeout of its command id. After any sequence of events a call that
  is not settled still has its timer. When the event loop runs the timer of a call
  (the one due first, once it is due), the call is no longer in the queue afterwards and
  its promise is rejected with the timeout error of its command. And a response whose
  command id no entry of the queue has, as one arriving after such a removal, changes
  nothing: \<open>_handleResponse\<close> returns the controller as it was, settles no call and
  throws nothing.
\<close>

theorem C3_timeout_cleanup:
  "(sendCommand commandId data True c = (Inr (Pending k), c')
      \<longrightarrow> responseQueue c' = responseQueue c @ [\<lparr>command = commandId, call = k\<rparr>]
        \<and> timers c' = timers c @ [\<lparr>owner = k, timerCommand = commandId,
                                     expiry = clock c + getCommandTimeout commandId\<rparr>])
   \<and> (j < calls (run events) \<and> j \<notin> fst ` set (settled (run events))
      \<longrightarrow> j \<in> owner ` set (timers (run events)))
   \<and> (earliest (timers (run events)) = Some t \<and> expiry t \<le> clock (run events)
      \<longrightarrow> owner t \<notin> call ` set (responseQueue (step (run events) RunTimer))
        \<and> owner t \<notin> owner ` set (timers (step (run events) RunTimer))
        \<and> settled (step (run events) RunTimer)
            = settled (run events) @ [(owner t, Rejected (CommandTimeout (timerCommand t)))])
   \<and> ((\<forall>x \<in> set (responseQueue c). command x \<noteq> commandId)
      \<longrightarrow> handleResponse commandId payload c = (None, c))"
proof (intro conjI impI)
  assume "sendCommand commandId data True c = (Inr (Pending k), c')"
  then show "responseQueue c' = responseQueue c @ [\<lparr>command = commandId, call = k\<rparr>]"
    and "timers c' = timers c @ [\<lparr>owner = k, timerCommand = commandId,
                                     expiry = clock c + getCommandTimeout commandId\<rparr>]"
    by (auto simp: sendCommand_def Let_def split: if_splits option.splits sum.splits)
next
  assume "j < calls (run events) \<and> j \<notin> fst ` set (settled (run events))"
  with consistent_pending [OF consistent_run, of j events]
  show "j \<in> owner ` set (timers (run events))" by simp
next
  let ?c = "run events"
  have c: "consistent ?c" by (rule consistent_run)
  assume "earliest (timers ?c) = Some t \<and> expiry t \<le> clock ?c"
  then have e: "earliest (timers ?c) = Some t" and due: "expiry t \<le> clock ?c" by simp_all
  from earliest_split [OF e] have t: "t \<in> set (timers ?c)" by auto
  from timeout_removes_own_entry [OF c e] obtain q'
    where q': "\<forall>x \<in> set q'. call x \<noteq> owner t"
      "timeoutCallback t (clearTimeout (owner t) ?c)
         = settle (owner t) (Rejected (CommandTimeout (timerCommand t)))
             (clearTimeout (owner t) (?c\<lparr>responseQueue := q'\<rparr>))"
    by blast
  have s: "step ?c RunTimer = settle (owner t) (Rejected (CommandTimeout (timerCommand t)))
             (clearTimeout (owner t) (?c\<lparr>responseQueue := q'\<rparr>))"
    using e due q'(2) by (simp add: fireTimer_def)
  from consistent_timer [OF c t] have fresh: "owner t \<notin> fst ` set (settled ?c)" by simp
  show "owner t \<notin> call ` set (responseQueue (step ?c RunTimer))"
    unfolding s using q'(1) by auto
  show "owner t \<notin> owner ` set (timers (step ?c RunTimer))"
    unfolding s by (auto simp: clearTimeout_def)
  show "settled (step ?c RunTimer)
            = settled ?c @ [(owner t, Rejected (CommandTimeout (timerCommand t)))]"
    unfolding s using fresh by (simp add: settle_def)
next
  assume "\<forall>x \<in> set (responseQueue c). command x \<noteq> commandId"
  then show "handleResponse commandId payload c = (None, c)"
    by (rule handleResponse_no_match)
qed


theorem C3_timeout_cleanup_witness:
  "sendCommand GET_ANGLES None True (run [PortOpen])
      = (Inr (Pending 0), run [PortOpen, Send GET_ANGLES None True])
   \<and> responseQueue (run [PortOpen, Send GET_ANGLES None True])
      = responseQueue (run [PortOpen]) @ [\<lparr>command = GET_ANGLES, call = 0\<rparr>]
   \<and> timers (run [PortOpen, Send GET_ANGLES None True])
      = timers (run [PortOpen]) @ [\<lparr>owner = 0, timerCommand = GET_ANGLES,
            expiry = clock (run [PortOpen]) + getCommandTimeout GET_ANGLES\<rparr>]
   \<and> 0 < calls (run [PortOpen, Send GET_ANGLES None True, Elapse 500])
   \<and> 0 \<notin> fst ` set (settled (run [PortOpen, Send GET_ANGLES None True, Elapse 500]))
   \<and> 0 \<in> owner ` set (timers (run [PortOpen, Send GET_ANGLES None True, Elapse 500]))
   \<and> earliest (timers (run [PortOpen, Send GET_ANGLES None True, Elapse 500]))
      = Some \<lparr>owner = 0, timerCommand = GET_ANGLES, expiry = 500\<rparr>
   \<and> expiry \<lparr>owner = 0, timerCommand = GET_ANGLES, expiry = 500\<rparr>
      \<le> clock (run [PortOpen, Send GET_ANGLES None True, Elapse 500])
   \<and> 0 \<notin> call ` set (responseQueue (run [PortOpen, Send GET_ANGLES None True, Elapse 500, RunTimer]))
   \<and> 0 \<notin> owner ` set (timers (run [PortOpen, Send GET_ANGLES None True, Elapse 500, RunTimer]))
   \<and> settled (run [PortOpen, Send GET_ANGLES None True, Elapse 500, RunTimer])
      = settled (run [PortOpen, Send GET_ANGLES None True, Elapse 500])
          @ [(0, Rejected (CommandTimeout GET_ANGLES))]
   \<and> responseQueue (run [PortOpen, Send GET_ANGLES None True, Elapse 500, RunTimer]) = []
   \<and> handleResponse GET_ANGLES [0x04, 0xD2] (run [PortOpen, Send GET_ANGLES None True, Elapse 500, RunTimer])
      = (None, run [PortOpen, Send GET_ANGLES None True, Elapse 500, RunTimer])"
proof -
  let ?c0 = "run [PortOpen]"
  let ?c1 = "run [PortOpen, Send GET_ANGLES None True]"
  let ?c2 = "run [PortOpen, Send GET_ANGLES None True, Elapse 500]"
  let ?c3 = "run [PortOpen, Send GET_ANGLES None True, Elapse 500, RunTimer]"
  let ?t = "\<lparr>owner = 0, timerCommand = GET_ANGLES, expiry = 500\<rparr>"
  have s: "sendCommand GET_ANGLES None True ?c0 = (Inr (Pending 0), ?c1)"
    by code_simp
  have p: "0 < calls ?c2" "0 \<notin> fst ` set (settled ?c2)"
    by code_simp+
  have e: "earliest (timers ?c2) = Some ?t" "expiry ?t \<le> clock ?c2"
    by code_simp+
  have q: "responseQueue ?c3 = []"
    by code_simp
  have step: "step ?c2 RunTimer = ?c3"
    by (simp add: run_def)
  have no: "\<forall>x \<in> set (responseQueue ?c3). command x \<noteq> GET_ANGLES"
    by (simp add: q)
  note a = C3_timeout_cleanup [of GET_ANGLES None ?c0 0 ?c1 0 "[PortOpen, Send GET_ANGLES None True, Elapse 500]" ?t]
  note b = C3_timeout_cleanup [of GET_ANGLES None ?c3 0 ?c1 0 "[]" ?t "[0x04, 0xD2]"]
  have 1: "responseQueue ?c1 = responseQueue ?c0 @ [\<lparr>command = GET_ANGLES, call = 0\<rparr>]"
    "timers ?c1 = timers ?c0 @ [\<lparr>owner = 0, timerCommand = GET_ANGLES,
            expiry = clock ?c0 + getCommandTimeout GET_ANGLES\<rparr>]"
    using a s by blast+
  have 2: "0 \<in> owner ` set (timers ?c2)"
    using a p by blast
  have 3: "0 \<notin> call ` set (responseQueue ?c3)" "0 \<notin> owner ` set (timers ?c3)"
    "settled ?c3 = settled ?c2 @ [(0, Rejected (CommandTimeout GET_ANGLES))]"
    using a e unfolding step by simp_all
  have 4: "handleResponse GET_ANGLES [0x04, 0xD2] ?c3 = (None, ?c3)"
    using b no by blast
  from s 1 p 2 e 3 q 4 show ?thesis by blast
qed

section \<open>Properties of the public operations\<close>

text \<open>
  A check that fails comes first. Every public operation that checks an argument (a
  servo, joint or coordinate id against 1 and 6, a speed against 0 and 100, a gripper
  state or an interpolation mode against 0 and 1, the length of a vector against 6) throws
  the error of that check when the comparison of the check holds, whatever the other
  arguments are, and returns the controller as it was: nothing is encoded, nothing is
  written to the port, no call is registered.
\<close>

lemma failed_check_before_io:
  "((js_lt servoId (Num 1) \<or> js_gt servoId (Num 6)) \<longrightarrow>
        (\<exists>msg. isServoEnable servoId c = (Inl (ValidationError msg), c))
      \<and> (\<exists>msg. releaseServo servoId c = (Inl (ValidationError msg), c))
      \<and> (\<exists>msg. focusServo servoId c = (Inl (ValidationError msg), c))
      \<and> (\<exists>msg. sendAngle servoId x speed c = (Inl (ValidationError msg), c))
      \<and> (\<exists>msg. sendCoord servoId x speed c = (Inl (ValidationError msg), c))
      \<and> (\<exists>msg. getEncoder servoId c = (Inl (ValidationError msg), c))
      \<and> (\<exists>msg. setEncoder servoId x c = (Inl (ValidationError msg), c)))
   \<and> ((js_lt speed (Num 0) \<or> js_gt speed (Num 100)) \<longrightarrow>
        (\<exists>msg. setSpeed speed c = (Inl (ValidationError msg), c))
      \<and> (\<exists>msg. sendAngles v speed c = (Inl (ValidationError msg), c))
      \<and> (\<exists>msg. sendAngle servoId x speed c = (Inl (ValidationError msg), c))
      \<and> (\<exists>msg. sendCoords v speed interpolation c = (Inl (ValidationError msg), c))
      \<and> (\<exists>msg. sendCoord servoId x speed c = (Inl (ValidationError msg), c))
      \<and> (\<exists>msg. setGripperState state speed c = (Inl (ValidationError msg), c))
      \<and> (\<exists>msg. setGripperValue x speed c = (Inl (ValidationError msg), c)))
   \<and> ((\<not> js_eq state (Num 0) \<and> \<not> js_eq state (Num 1)) \<longrightarrow>
        (\<exists>msg. setGripperState state speed c = (Inl (ValidationError msg), c)))
   \<and> (length v \<noteq> 6 \<longrightarrow>
        (\<exists>msg. sendAngles v speed c = (Inl (ValidationError msg), c))
      \<and> (\<exists>msg. sendCoords v speed interpolation c = (Inl (ValidationError msg), c))
      \<and> (\<exists>msg. setEncoders v c = (Inl (ValidationError msg), c)))
   \<and> ((\<not> js_eq interpolation (Num 0) \<and> \<not> js_eq interpolation (Num 1)) \<longrightarrow>
        (\<exists>msg. sendCoords v speed interpolation c = (Inl (ValidationError msg), c)))"
  by (simp add: isServoEnable_def releaseServo_def focusServo_def sendAngle_def sendCoord_def
        getEncoder_def setEncoder_def setSpeed_def sendAngles_def sendCoords_def
        setGripperState_def setGripperValue_def setEncoders_def)

text \<open>
  C6 at an argument that is \<open>NaN\<close>. \<open>NaN\<close> lies in no range, but both \<open>NaN < lo\<close> and
  \<open>NaN > hi\<close> are false, so every range check \<open>x < lo || x > hi\<close> lets it pass, and the
  writers of the payload store it as a zero byte. On a connected controller
  \<open>setSpeed(NaN)\<close> writes the frame \<open>FE FE 03 41 00 FA\<close> and returns without an error;
  \<open>sendAngles\<close> with the speed \<open>NaN\<close> sends a move with the speed byte 0;
  \<open>sendAngle(NaN, 45.5, NaN)\<close> sends a move of joint 0; \<open>isServoEnable(NaN)\<close> writes a
  frame and registers a call that waits for a response.
\<close>

theorem C6_NaN_passes_range_checks:
  "\<not> js_lt NaN (Num 0) \<and> \<not> js_gt NaN (Num 100) \<and> \<not> js_lt NaN (Num 1) \<and> \<not> js_gt NaN (Num 6)
   \<and> setSpeed NaN (newController\<lparr>isConnected := True\<rparr>)
       = (Inr Done,
          newController\<lparr>isConnected := True, port := Some [[0xFE, 0xFE, 0x03, 0x41, 0x00, 0xFA]]\<rparr>)
   \<and> sendAngles [Num 0, Num 90, Num 0, Num 0, Num 0, Num 0] NaN (newController\<lparr>isConnected := True\<rparr>)
       = (Inr Done,
          newController\<lparr>isConnected := True,
            port := Some [[0xFE, 0xFE, 0x0F, 0x22, 0, 0, 0x23, 0x28, 0, 0, 0, 0, 0, 0, 0, 0, 0x00, 0xFA]]\<rparr>)
   \<and> sendAngle NaN (Num 45.5) NaN (newController\<lparr>isConnected := True\<rparr>)
       = (Inr Done,
          newController\<lparr>isConnected := True,
            port := Some [[0xFE, 0xFE, 0x06, 0x21, 0x00, 0x11, 0xC6, 0x00, 0xFA]]\<rparr>)
   \<and> isServoEnable NaN (newController\<lparr>isConnected := True\<rparr>)
       = (Inr (Pending 0),
          newController\<lparr>isConnected := True,
            port := Some [[0xFE, 0xFE, 0x03, 0x50, 0x00, 0xFA]],
            calls := 1,
            timers := [\<lparr>owner = 0, timerCommand = IS_SERVO_ENABLE, expiry = 500\<rparr>],
            responseQueue := [\<lparr>command = IS_SERVO_ENABLE, call = 0\<rparr>]\<rparr>)"
  by code_simp

section \<open>Properties of the recorder\<close>


lemma resumeSettled_simps [simp]:
  "resumeSettled [] r = r"
  "resumeSettled (news @ news') r = resumeSettled news' (resumeSettled news r)"
  "resumeSettled [(k, result)] r = recordFrame_resume k result r"
  by (simp_all add: resumeSettled_def)























section \<open>Properties of the player\<close>

lemma playRecordingOnce_done:
  assumes "\<not> (i < length frames \<and> isPlaying r)"
  shows "playRecordingOnce stop frames recMode speed moveSpeed i r c = ([], r, c)"
proof -
  have "(i < length frames \<and> isPlaying r) = False" using assms by simp
  then show ?thesis
    by (subst playRecordingOnce.simps) (simp only: if_False)
qed

lemma playRecordingOnce_skip:
  assumes "i < length frames" "isPlaying r" "frames ! i = None"
  shows "playRecordingOnce stop frames recMode speed moveSpeed i r c
       = playRecordingOnce stop frames recMode speed moveSpeed (i + 1) r c"
proof -
  have "(i < length frames \<and> isPlaying r) = True" using assms by simp
  then show ?thesis
    by (subst playRecordingOnce.simps) (simp only: if_True assms(3) option.case)
qed

lemma playRecordingOnce_frame:
  assumes "i < length frames" "isPlaying r" "frames ! i = Some frame"
  shows "fst (playRecordingOnce stop frames recMode speed moveSpeed i r c)
           = fst (playFrame frames recMode speed moveSpeed i frame c)
             @ fst (playRecordingOnce stop frames recMode speed moveSpeed (i + 1)
                     (if stop i then snd (stopPlayback r) else r)
                     (snd (playFrame frames recMode speed moveSpeed i frame c)))"
    and "snd (playRecordingOnce stop frames recMode speed moveSpeed i r c)
           = snd (playRecordingOnce stop frames recMode speed moveSpeed (i + 1)
                     (if stop i then snd (stopPlayback r) else r)
                     (snd (playFrame frames recMode speed moveSpeed i frame c)))"
proof -
  have t: "(i < length frames \<and> isPlaying r) = True" using assms by simp
  have "playRecordingOnce stop frames recMode speed moveSpeed i r c
       = (case playFrame frames recMode speed moveSpeed i frame c of
            (events, c') \<Rightarrow>
              (case playRecordingOnce stop frames recMode speed moveSpeed (i + 1)
                      (if stop i then snd (stopPlayback r) else r) c' of
                 (events', rc) \<Rightarrow> (events @ events', rc)))"
    by (subst playRecordingOnce.simps) (simp only: t if_True assms(3) option.case)
  then show "fst (playRecordingOnce stop frames recMode speed moveSpeed i r c)
           = fst (playFrame frames recMode speed moveSpeed i frame c)
             @ fst (playRecordingOnce stop frames recMode speed moveSpeed (i + 1)
                     (if stop i then snd (stopPlayback r) else r)
                     (snd (playFrame frames recMode speed moveSpeed i frame c)))"
    and "snd (playRecordingOnce stop frames recMode speed moveSpeed i r c)
           = snd (playRecordingOnce stop frames recMode speed moveSpeed (i + 1)
                     (if stop i then snd (stopPlayback r) else r)
                     (snd (playFrame frames recMode speed moveSpeed i frame c)))"
    by (simp_all only: split_beta fst_conv snd_conv)
qed








text \<open>
  C10. \<open>stopPlayback\<close> with no playback in progress returns without an error and leaves
  the recorder as it was. With a playback in progress it clears \<open>isPlaying\<close> and changes
  nothing else. The player reads the flag at the head of its loop only: when a
  \<open>stopPlayback\<close> falls into the turn of a frame, the move and the sleep of that frame
  are what they are without it, and no later frame is played.
\<close>

theorem C10_stopPlayback:
  "(\<not> isPlaying r \<longrightarrow> stopPlayback r = (Inr (), r))
   \<and> (isPlaying r \<longrightarrow> stopPlayback r = (Inr (), r\<lparr>isPlaying := False\<rparr>))
   \<and> (i < length frames \<and> isPlaying r \<and> frames ! i = Some frame \<and> stop i \<longrightarrow>
        playRecordingOnce stop frames recMode speed moveSpeed i r c
          = (fst (playFrame frames recMode speed moveSpeed i frame c),
             r\<lparr>isPlaying := False\<rparr>,
             snd (playFrame frames recMode speed moveSpeed i frame c)))
   \<and> (i < length frames \<and> isPlaying r \<and> frames ! i = Some frame \<and> \<not> stop i \<longrightarrow>
        fst (playRecordingOnce stop frames recMode speed moveSpeed i r c)
          = fst (playFrame frames recMode speed moveSpeed i frame c)
            @ fst (playRecordingOnce stop frames recMode speed moveSpeed (i + 1) r
                     (snd (playFrame frames recMode speed moveSpeed i frame c))))"
proof (intro conjI impI)
  show "\<not> isPlaying r \<Longrightarrow> stopPlayback r = (Inr (), r)"
    by (simp add: stopPlayback_def)
  show "isPlaying r \<Longrightarrow> stopPlayback r = (Inr (), r\<lparr>isPlaying := False\<rparr>)"
    by (simp add: stopPlayback_def)
next
  assume a: "i < length frames \<and> isPlaying r \<and> frames ! i = Some frame \<and> stop i"
  then have i: "i < length frames" "isPlaying r" "frames ! i = Some frame" by simp_all
  let ?c' = "snd (playFrame frames recMode speed moveSpeed i frame c)"
  have off: "snd (stopPlayback r) = r\<lparr>isPlaying := False\<rparr>"
    using i(2) by (simp add: stopPlayback_def)
  have rest: "playRecordingOnce stop frames recMode speed moveSpeed (i + 1) (r\<lparr>isPlaying := False\<rparr>) ?c'
      = ([], r\<lparr>isPlaying := False\<rparr>, ?c')"
    by (rule playRecordingOnce_done) simp
  show "playRecordingOnce stop frames recMode speed moveSpeed i r c
          = (fst (playFrame frames recMode speed moveSpeed i frame c), r\<lparr>isPlaying := False\<rparr>, ?c')"
    using playRecordingOnce_frame [OF i, of stop recMode speed moveSpeed c] a rest
    by (simp add: off prod_eq_iff)
next
  assume a: "i < length frames \<and> isPlaying r \<and> frames ! i = Some frame \<and> \<not> stop i"
  then have i: "i < length frames" "isPlaying r" "frames ! i = Some frame" by simp_all
  show "fst (playRecordingOnce stop frames recMode speed moveSpeed i r c)
          = fst (playFrame frames recMode speed moveSpeed i frame c)
            @ fst (playRecordingOnce stop frames recMode speed moveSpeed (i + 1) r
                     (snd (playFrame frames recMode speed moveSpeed i frame c)))"
    using playRecordingOnce_frame(1) [OF i, of stop recMode speed moveSpeed c] a by simp
qed

theorem C10_stopPlayback_witness:
  "\<not> isPlaying (newRecorder (Num 20) ''angles'')
   \<and> stopPlayback (newRecorder (Num 20) ''angles'') = (Inr (), newRecorder (Num 20) ''angles'')
   \<and> isPlaying ((newRecorder (Num 20) ''angles'')\<lparr>isPlaying := True\<rparr>)
   \<and> stopPlayback ((newRecorder (Num 20) ''angles'')\<lparr>isPlaying := True\<rparr>)
       = (Inr (), (newRecorder (Num 20) ''angles'')\<lparr>isPlaying := True, isPlaying := False\<rparr>)
   \<and> 0 < length [Some \<lparr>timestamp = Num 0, position = [Num 0, Num 0, Num 0, Num 0, Num 0, Num 0], mode = ''angles''\<rparr>,
                   Some \<lparr>timestamp = Num 100, position = [Num 10, Num 0, Num 0, Num 0, Num 0, Num 0], mode = ''angles''\<rparr>]
   \<and> fst (playRecordingOnce (\<lambda>i. i = 0)
               [Some \<lparr>timestamp = Num 0, position = [Num 0, Num 0, Num 0, Num 0, Num 0, Num 0], mode = ''angles''\<rparr>,
                Some \<lparr>timestamp = Num 100, position = [Num 10, Num 0, Num 0, Num 0, Num 0, Num 0], mode = ''angles''\<rparr>]
               ''angles'' (Num 2) (Num 50) 0 ((newRecorder (Num 20) ''angles'')\<lparr>isPlaying := True\<rparr>)
               (newController\<lparr>isConnected := True\<rparr>))
       = [Moved 0, Slept 50]
   \<and> fst (playRecordingOnce (\<lambda>i. i = 1)
               [Some \<lparr>timestamp = Num 0, position = [Num 0, Num 0, Num 0, Num 0, Num 0, Num 0], mode = ''angles''\<rparr>,
                Some \<lparr>timestamp = Num 100, position = [Num 10, Num 0, Num 0, Num 0, Num 0, Num 0], mode = ''angles''\<rparr>]
               ''angles'' (Num 2) (Num 50) 0 ((newRecorder (Num 20) ''angles'')\<lparr>isPlaying := True\<rparr>)
               (newController\<lparr>isConnected := True\<rparr>))
       = [Moved 0, Slept 50]
         @ fst (playRecordingOnce (\<lambda>i. i = 1)
               [Some \<lparr>timestamp = Num 0, position = [Num 0, Num 0, Num 0, Num 0, Num 0, Num 0], mode = ''angles''\<rparr>,
                Some \<lparr>timestamp = Num 100, position = [Num 10, Num 0, Num 0, Num 0, Num 0, Num 0], mode = ''angles''\<rparr>]
               ''angles'' (Num 2) (Num 50) (0 + 1) ((newRecorder (Num 20) ''angles'')\<lparr>isPlaying := True\<rparr>)
               (newController\<lparr>isConnected := True, port := Some [[0xFE, 0xFE, 0x0F, 0x22, 0, 0, 0, 0, 0, 0, 0, 0, 0, 0, 0, 0, 50, 0xFA]]\<rparr>))"
proof -
  let ?f0 = "\<lparr>timestamp = Num 0, position = [Num 0, Num 0, Num 0, Num 0, Num 0, Num 0], mode = ''angles''\<rparr>"
  let ?f1 = "\<lparr>timestamp = Num 100, position = [Num 10, Num 0, Num 0, Num 0, Num 0, Num 0], mode = ''angles''\<rparr>"
  let ?idle = "newRecorder (Num 20) ''angles''"
  let ?r = "(newRecorder (Num 20) ''angles'')\<lparr>isPlaying := True\<rparr>"
  let ?c = "newController\<lparr>isConnected := True\<rparr>"
  let ?c' = "newController\<lparr>isConnected := True, port := Some [[0xFE, 0xFE, 0x0F, 0x22, 0, 0, 0, 0, 0, 0, 0, 0, 0, 0, 0, 0, 50, 0xFA]]\<rparr>"
  have h: "\<not> isPlaying ?idle" "isPlaying ?r" "0 < length [Some ?f0, Some ?f1]"
    "[Some ?f0, Some ?f1] ! 0 = Some ?f0"
    by (simp_all add: newRecorder_def)
  have pf: "playFrame [Some ?f0, Some ?f1] ''angles'' (Num 2) (Num 50) 0 ?f0 ?c = ([Moved 0, Slept 50], ?c')"
    by code_simp
  note a = C10_stopPlayback [of ?idle 0 "[Some ?f0, Some ?f1]" ?f0 "\<lambda>i. i = 0" "''angles''" "Num 2" "Num 50" ?c]
  note b = C10_stopPlayback [of ?r 0 "[Some ?f0, Some ?f1]" ?f0 "\<lambda>i. i = 0" "''angles''" "Num 2" "Num 50" ?c]
  note d = C10_stopPlayback [of ?r 0 "[Some ?f0, Some ?f1]" ?f0 "\<lambda>i. i = 1" "''angles''" "Num 2" "Num 50" ?c]
  have 1: "stopPlayback ?idle = (Inr (), ?idle)" using a h(1) by blast
  have 2: "stopPlayback ?r = (Inr (), ?r\<lparr>isPlaying := False\<rparr>)" using b h(2) by blast
  have "playRecordingOnce (\<lambda>i. i = 0) [Some ?f0, Some ?f1] ''angles'' (Num 2) (Num 50) 0 ?r ?c
          = (fst (playFrame [Some ?f0, Some ?f1] ''angles'' (Num 2) (Num 50) 0 ?f0 ?c),
             ?r\<lparr>isPlaying := False\<rparr>,
             snd (playFrame [Some ?f0, Some ?f1] ''angles'' (Num 2) (Num 50) 0 ?f0 ?c))"
    using b h by blast
  then have 3: "fst (playRecordingOnce (\<lambda>i. i = 0) [Some ?f0, Some ?f1] ''angles'' (Num 2) (Num 50) 0 ?r ?c) = [Moved 0, Slept 50]"
    by (simp add: pf)
  have n: "\<not> (0::nat) = 1" by simp
  have "fst (playRecordingOnce (\<lambda>i. i = 1) [Some ?f0, Some ?f1] ''angles'' (Num 2) (Num 50) 0 ?r ?c)
          = fst (playFrame [Some ?f0, Some ?f1] ''angles'' (Num 2) (Num 50) 0 ?f0 ?c)
            @ fst (playRecordingOnce (\<lambda>i. i = 1) [Some ?f0, Some ?f1] ''angles'' (Num 2) (Num 50) (0 + 1) ?r
                     (snd (playFrame [Some ?f0, Some ?f1] ''angles'' (Num 2) (Num 50) 0 ?f0 ?c)))"
    using d h n by blast
  then have 4: "fst (playRecordingOnce (\<lambda>i. i = 1) [Some ?f0, Some ?f1] ''angles'' (Num 2) (Num 50) 0 ?r ?c)
          = [Moved 0, Slept 50]
            @ fst (playRecordingOnce (\<lambda>i. i = 1) [Some ?f0, Some ?f1] ''angles'' (Num 2) (Num 50) (0 + 1) ?r ?c')"
    by (simp only: pf fst_conv snd_conv)
  from h(1,2,3) 1 2 3 4 show ?thesis by simp
qed

end
